theory Spec2Isabelle
  imports Main
begin

section \<open>Action contexts\<close>

text \<open>
  The action-tracking middleware of mobx-keystone (then \<^verbatim>\<open>mobx-state-tree-next\<close>),
  file \<^verbatim>\<open>actionTrackingMiddleware.ts\<close>. The action-context layer
  (\<^verbatim>\<open>../action/context\<close>) is imported by that file and is not part of it; its two
  enumerations and the context object are declared here with the fields the middleware reads.
\<close>

text \<open>
  Modelled from the spec: the enumerations \<^verbatim>\<open>ActionContextActionType\<close> (Sync, Async) and
  \<^verbatim>\<open>ActionContextAsyncStepType\<close> (Spawn, Return, Throw, Resume, ResumeError) of the
  context layer. The two step types that share a name with a member of
  \<^verbatim>\<open>ActionTrackingResult\<close> are written \<open>AsyncReturn\<close> and \<open>AsyncThrow\<close>.
\<close>

datatype ActionContextActionType = Sync | Async

datatype ActionContextAsyncStepType = Spawn | AsyncReturn | AsyncThrow | Resume | ResumeError

text \<open>
  A JavaScript object is what its fields hold, so \<^verbatim>\<open>ActionContext\<close> and
  \<^verbatim>\<open>SimpleActionContext\<close> are one type: a simple context is a context whose
  \<open>asyncStepType\<close> and \<open>previousAsyncStepContext\<close> are undefined (\<open>None\<close>), which is how
  \<^verbatim>\<open>getCtxData\<close> and \<^verbatim>\<open>setCtxData\<close> take either. The \<open>data\<close> bag is a mutable object
  that several contexts may share, so the field holds its address.
\<close>

datatype 'a ctx = ActionContext
  (name: string)
  (type: ActionContextActionType)
  (asyncStepType: "ActionContextAsyncStepType option")
  (target: 'a)
  (args: "'a list")
  (parentContext: "'a ctx option")
  (previousAsyncStepContext: "'a ctx option")
  (data: nat)

text \<open>
  The loop \<^verbatim>\<open>while (ctx.previousAsyncStepContext) ctx = ctx.previousAsyncStepContext\<close>,
  which the filter (lines 148 to 151) and \<^verbatim>\<open>simplifyActionContext\<close> (lines 305 to 307)
  both run.
\<close>

fun chainRoot :: "'a ctx \<Rightarrow> 'a ctx" where
  "chainRoot (ActionContext n t s tg as p None d) = ActionContext n t s tg as p None d"
| "chainRoot (ActionContext n t s tg as p (Some prev) d) = chainRoot prev"

lemma size_chainRoot: "size (chainRoot c) \<le> size c"
  by (induction c rule: chainRoot.induct) auto

lemma size_parentContext: "parentContext c = Some p \<Longrightarrow> size p < size c"
  by (cases c) auto

function simplifyActionContext :: "'a ctx \<Rightarrow> 'a ctx" where
  "simplifyActionContext ctx0 =
     (let ctx = chainRoot ctx0 in
      ActionContext (name ctx) (type ctx) None (target ctx) (args ctx)
        (case parentContext ctx of
           None \<Rightarrow> None
         | Some p \<Rightarrow> Some (simplifyActionContext p))
        None (data ctx))"
  by pat_completeness auto
termination
proof (relation "measure size")
  show "wf (measure size)" by simp
next
  fix ctx0 x :: "'a ctx" and p
  assume "x = chainRoot ctx0" "parentContext x = Some p"
  then have "size p < size (chainRoot ctx0)" by (simp add: size_parentContext)
  also have "\<dots> \<le> size ctx0" by (rule size_chainRoot)
  finally show "(p, ctx0) \<in> measure size" by simp
qed

declare simplifyActionContext.simps [simp del]

text \<open>
  The steps of the chain that ends in a context: the context itself and everything its
  \<open>previousAsyncStepContext\<close> links reach. Two contexts belong to one step-chain when both
  are steps of the chain's latest context.
\<close>

fun chainSteps :: "'a ctx \<Rightarrow> 'a ctx list" where
  "chainSteps (ActionContext n t s tg as p None d) = [ActionContext n t s tg as p None d]"
| "chainSteps (ActionContext n t s tg as p (Some prev) d) =
     ActionContext n t s tg as p (Some prev) d # chainSteps prev"

text \<open>
  The ancestors of a context along \<open>parentContext\<close>, nearest first.
\<close>

fun ancestors :: "'a ctx \<Rightarrow> 'a ctx list" where
  "ancestors (ActionContext n t s tg as None prev d) = []"
| "ancestors (ActionContext n t s tg as (Some p) prev d) = p # ancestors p"

section \<open>Values, errors and the tracking data\<close>

text \<open>
  A JavaScript value is either a value of the application (\<open>Val\<close>) or the error object that
  \<^verbatim>\<open>failure\<close> of \<^verbatim>\<open>utils/index.ts\<close> builds. A call either throws (\<open>Inl\<close>) or returns
  (\<open>Inr\<close>) such a value.
\<close>

datatype 'a val = Val 'a | MobxStateTreeNextError string

definition failure :: "string \<Rightarrow> 'a val" where
  "failure msg = MobxStateTreeNextError msg"

datatype ActionTrackingResult = Return | Throw

datatype lifecycle = idle | started | realResumed | fakeResumed | suspended | finished

text \<open>
  \<^verbatim>\<open>Data\<close> as \<^verbatim>\<open>setCtxData\<close> receives it, a \<^verbatim>\<open>Partial<Data>\<close>: a field that the object
  literal does not mention is \<open>None\<close>.
\<close>

record Data =
  startAccepted :: "bool option"
  state :: "lifecycle option"

text \<open>
  The user's hooks are observers: a call of a hook is recorded, in order, with the context
  it received and the tracking data that context carried at that moment (what the hook
  would read from the bag). \<open>FilterCall\<close> records a call of the user's \<^verbatim>\<open>filter\<close> predicate.
  Hooks are taken not to throw and not to write the tracking data.
\<close>

datatype 'a hookCall =
    FilterCall "'a ctx"
  | OnStart "'a ctx" "Data option"
  | OnResume "'a ctx" "Data option"
  | OnSuspend "'a ctx" "Data option"
  | OnFinish "'a ctx" "Data option" ActionTrackingResult "'a val"

text \<open>
  The state the middleware runs in: for every data bag (by address) the entry under this
  instance's private \<^verbatim>\<open>dataSymbol\<close>, and the hook calls made so far. \<open>writes\<close> is a history
  variable, not part of the program: every \<^verbatim>\<open>setCtxData\<close> appends the address it wrote, the
  entry it found there and the entry it left, so that properties of the order of state
  changes can be stated.
\<close>

record 'a tracker =
  bags :: "nat \<Rightarrow> Data option"
  calls :: "'a hookCall list"
  writes :: "(nat \<times> Data option \<times> Data) list"

text \<open>
  What the closure of one \<^verbatim>\<open>actionTrackingMiddleware\<close> call captures: \<open>actionName\<close> of the
  target, and of the hooks the optional \<^verbatim>\<open>filter\<close> predicate and whether \<^verbatim>\<open>onResume\<close> and
  \<^verbatim>\<open>onSuspend\<close> are supplied (\<^verbatim>\<open>onStart\<close> and \<^verbatim>\<open>onFinish\<close> are mandatory). \<open>stepText\<close> is
  the text the template string of the assertion error prints for \<^verbatim>\<open>ctx.asyncStepType\<close>;
  the enumeration's string values belong to the context layer, so it is a parameter.
\<close>

record 'a closure =
  actionName :: "string option"
  hooks_filter :: "('a ctx \<Rightarrow> bool) option"
  hooks_onResume :: bool
  hooks_onSuspend :: bool
  stepText :: "ActionContextAsyncStepType option \<Rightarrow> string"

definition getCtxData :: "'a tracker \<Rightarrow> 'a ctx \<Rightarrow> Data option" where
  "getCtxData st ctx = bags st (data ctx)"

text \<open>\<^verbatim>\<open>Object.assign(currentData, partialData)\<close>: the fields present in the partial data win.\<close>

definition assign :: "Data \<Rightarrow> Data \<Rightarrow> Data" where
  "assign currentData partialData =
     \<lparr> startAccepted = (case startAccepted partialData of
                           None \<Rightarrow> startAccepted currentData | Some b \<Rightarrow> Some b),
       state = (case state partialData of
                  None \<Rightarrow> state currentData | Some s \<Rightarrow> Some s) \<rparr>"

definition setCtxData :: "'a ctx \<Rightarrow> Data \<Rightarrow> 'a tracker \<Rightarrow> 'a tracker" where
  "setCtxData ctx partialData st =
     (case bags st (data ctx) of
        None \<Rightarrow>
          st\<lparr>bags := (bags st)(data ctx \<mapsto> partialData),
             writes := writes st @ [(data ctx, None, partialData)]\<rparr>
      | Some currentData \<Rightarrow>
          st\<lparr>bags := (bags st)(data ctx \<mapsto> assign currentData partialData),
             writes := writes st @ [(data ctx, Some currentData, assign currentData partialData)]\<rparr>)"

definition hook :: "'a hookCall \<Rightarrow> 'a tracker \<Rightarrow> 'a tracker" where
  "hook c st = st\<lparr>calls := calls st @ [c]\<rparr>"

section \<open>The acceptance filter\<close>

definition userFilter :: "'a closure \<Rightarrow> 'a ctx \<Rightarrow> 'a tracker \<Rightarrow> bool \<times> 'a tracker" where
  "userFilter h ctx st =
     (case hooks_filter h of
        Some f \<Rightarrow> (f (simplifyActionContext ctx), hook (FilterCall (simplifyActionContext ctx)) st)
      | None \<Rightarrow> (True, st))"

definition resumeSuspendSupport :: "'a closure \<Rightarrow> bool" where
  "resumeSuspendSupport h = (hooks_onResume h \<or> hooks_onSuspend h)"

text \<open>
  Line 119, \<^verbatim>\<open>actionName && ctx.name !== actionName\<close>: the empty string is falsy, as
  \<^verbatim>\<open>undefined\<close> is.
\<close>

definition nameRejected :: "'a closure \<Rightarrow> 'a ctx \<Rightarrow> bool" where
  "nameRejected h ctx =
     (case actionName h of
        None \<Rightarrow> False
      | Some a \<Rightarrow> a \<noteq> [] \<and> name ctx \<noteq> a)"

text \<open>Lines 125 to 132 and 136 to 143, the same code for a sync step and for a spawn step.\<close>

definition acceptStart :: "'a closure \<Rightarrow> 'a ctx \<Rightarrow> 'a tracker \<Rightarrow> bool \<times> 'a tracker" where
  "acceptStart h ctx st =
     (let (accepted, st1) = userFilter h ctx st in
      if accepted
      then (True, setCtxData ctx \<lparr>startAccepted = Some True, state = Some idle\<rparr> st1)
      else (False, st1))"

text \<open>
  The \<^verbatim>\<open>filter\<close> of the middleware. \<^verbatim>\<open>data ? data.startAccepted : false\<close> is read for its
  truthiness: an entry without the flag rejects.
\<close>

definition filter :: "'a closure \<Rightarrow> 'a ctx \<Rightarrow> 'a tracker \<Rightarrow> bool \<times> 'a tracker" where
  "filter h ctx st =
     (if nameRejected h ctx then (False, st)
      else if type ctx = Sync then acceptStart h ctx st
      else (case asyncStepType ctx of
              Some Spawn \<Rightarrow> acceptStart h ctx st
            | Some AsyncReturn \<Rightarrow>
                (case getCtxData st (chainRoot ctx) of
                   None \<Rightarrow> (False, st)
                 | Some d \<Rightarrow> (startAccepted d = Some True, st))
            | Some AsyncThrow \<Rightarrow>
                (case getCtxData st (chainRoot ctx) of
                   None \<Rightarrow> (False, st)
                 | Some d \<Rightarrow> (startAccepted d = Some True, st))
            | Some Resume \<Rightarrow> (resumeSuspendSupport h, st)
            | Some ResumeError \<Rightarrow> (resumeSuspendSupport h, st)
            | None \<Rightarrow> (False, st)))"

section \<open>The lifecycle driver\<close>

text \<open>
  The guard \<^verbatim>\<open>parentData && parentData.startAccepted && parentData.state === s\<close> of
  \<^verbatim>\<open>finish\<close>, \<^verbatim>\<open>resume\<close> and \<^verbatim>\<open>suspend\<close>.
\<close>

definition tracked :: "'a tracker \<Rightarrow> 'a ctx \<Rightarrow> lifecycle \<Rightarrow> bool" where
  "tracked st ctx s =
     (case getCtxData st ctx of
        None \<Rightarrow> False
      | Some d \<Rightarrow> startAccepted d = Some True \<and> state d = Some s)"

definition start :: "'a closure \<Rightarrow> 'a ctx \<Rightarrow> 'a tracker \<Rightarrow> 'a tracker" where
  "start h simpleCtx st =
     (let st1 = setCtxData simpleCtx \<lparr>startAccepted = None, state = Some started\<rparr> st
      in hook (OnStart simpleCtx (getCtxData st1 simpleCtx)) st1)"

fun resume :: "'a closure \<Rightarrow> 'a ctx \<Rightarrow> bool \<Rightarrow> 'a tracker \<Rightarrow> 'a tracker" where
  "resume h (ActionContext n t s tg as parentCtx prev d) real st =
     (let simpleCtx = ActionContext n t s tg as parentCtx prev d;
          st1 = (case parentCtx of
                   None \<Rightarrow> st
                 | Some p \<Rightarrow> if tracked st p suspended then resume h p False st else st);
          st2 = setCtxData simpleCtx
                  \<lparr>startAccepted = None,
                   state = Some (if real then realResumed else fakeResumed)\<rparr> st1
      in if hooks_onResume h then hook (OnResume simpleCtx (getCtxData st2 simpleCtx)) st2
         else st2)"

fun suspend :: "'a closure \<Rightarrow> 'a ctx \<Rightarrow> 'a tracker \<Rightarrow> 'a tracker" where
  "suspend h (ActionContext n t s tg as parentCtx prev d) st =
     (let simpleCtx = ActionContext n t s tg as parentCtx prev d;
          st1 = setCtxData simpleCtx \<lparr>startAccepted = None, state = Some suspended\<rparr> st;
          st2 = (if hooks_onSuspend h
                 then hook (OnSuspend simpleCtx (getCtxData st1 simpleCtx)) st1
                 else st1)
      in case parentCtx of
           None \<Rightarrow> st2
         | Some p \<Rightarrow> if tracked st2 p fakeResumed then suspend h p st2 else st2)"

definition finish ::
  "'a closure \<Rightarrow> 'a ctx \<Rightarrow> ActionTrackingResult \<Rightarrow> 'a val \<Rightarrow> 'a tracker \<Rightarrow> 'a tracker" where
  "finish h simpleCtx result v st =
     (let parentResumed =
            (case parentContext simpleCtx of
               None \<Rightarrow> False
             | Some parentCtx \<Rightarrow> tracked st parentCtx suspended);
          st1 = (case parentContext simpleCtx of
                   None \<Rightarrow> st
                 | Some parentCtx \<Rightarrow>
                     if tracked st parentCtx suspended then resume h parentCtx False st else st);
          st2 = setCtxData simpleCtx \<lparr>startAccepted = None, state = Some finished\<rparr> st1;
          st3 = hook (OnFinish simpleCtx (getCtxData st2 simpleCtx) result v) st2
      in case parentContext simpleCtx of
           None \<Rightarrow> st3
         | Some parentCtx \<Rightarrow> if parentResumed then suspend h parentCtx st3 else st3)"

section \<open>The middleware entry point\<close>

text \<open>
  \<^verbatim>\<open>next\<close>, the rest of the middleware chain and the action body: it runs in the state, may
  run other actions (so it may change the state) and throws or returns a value.
\<close>

type_synonym 'a continuation = "'a tracker \<Rightarrow> ('a val + 'a val) \<times> 'a tracker"

text \<open>
  Lines 233 to 241, the wrapped \<^verbatim>\<open>next\<close>: a real resume, the original continuation, and in
  the \<^verbatim>\<open>finally\<close> block the suspend, on either exit.
\<close>

definition wrapNext :: "'a closure \<Rightarrow> 'a ctx \<Rightarrow> 'a continuation \<Rightarrow> 'a continuation" where
  "wrapNext h simpleCtx origNext st =
     (let (r, st1) = origNext (resume h simpleCtx True st)
      in (r, suspend h simpleCtx st1))"

definition assertionError :: "'a closure \<Rightarrow> 'a ctx \<Rightarrow> 'a val" where
  "assertionError h ctx =
     failure (''asssertion error: async step should have been filtered out - ''
              @ stepText h (asyncStepType ctx))"

definition mware :: "'a closure \<Rightarrow> 'a ctx \<Rightarrow> 'a continuation \<Rightarrow> 'a continuation" where
  "mware h ctx origNext st =
     (let simpleCtx = simplifyActionContext ctx;
          next' = wrapNext h simpleCtx origNext
      in if type ctx = Sync then
           (case next' (start h simpleCtx st) of
              (Inl err, st1) \<Rightarrow> (Inl err, finish h simpleCtx Throw err st1)
            | (Inr ret, st1) \<Rightarrow> (Inr ret, finish h simpleCtx Return ret st1))
         else
           (case asyncStepType ctx of
              Some Spawn \<Rightarrow> next' (start h simpleCtx st)
            | Some AsyncReturn \<Rightarrow>
                (case next' st of
                   (Inl err, st1) \<Rightarrow> (Inl err, st1)
                 | (Inr ret, st1) \<Rightarrow> (Inr ret, finish h simpleCtx Return ret st1))
            | Some AsyncThrow \<Rightarrow>
                (case next' st of
                   (Inl err, st1) \<Rightarrow> (Inl err, st1)
                 | (Inr ret, st1) \<Rightarrow> (Inr ret, finish h simpleCtx Throw ret st1))
            | Some Resume \<Rightarrow>
                if resumeSuspendSupport h then next' st else (Inl (assertionError h ctx), st)
            | Some ResumeError \<Rightarrow>
                if resumeSuspendSupport h then next' st else (Inl (assertionError h ctx), st)
            | None \<Rightarrow> (Inl (assertionError h ctx), st)))"

section \<open>Configuration\<close>

text \<open>
  The \<open>target\<close> argument of \<^verbatim>\<open>actionTrackingMiddleware\<close> as the checks of lines 77 to 89 see
  it. A caller outside the type checker can pass any value: \<^verbatim>\<open>null\<close>, \<^verbatim>\<open>undefined\<close>, a
  primitive or a function (none of which \<^verbatim>\<open>isObject\<close> accepts), or an object, of which the
  checks read the \<^verbatim>\<open>model\<close> and \<^verbatim>\<open>actionName\<close> properties. Of the \<^verbatim>\<open>model\<close> property they read
  whether it is an instance of \<^verbatim>\<open>Model\<close> and, for a model, which of its members are
  functions (the list of their names).
\<close>

datatype modelValue = NotAModel | ModelInstance "string list"

datatype targetValue =
    JsNull | JsUndefined | JsPrimitive | JsFunction
  | JsObject modelValue "string option"

text \<open>
  \<^verbatim>\<open>typeof\<close>, and \<^verbatim>\<open>isObject\<close> of \<^verbatim>\<open>utils/index.ts\<close>:
  \<^verbatim>\<open>if (value === null || typeof value !== "object") return false\<close>.
\<close>

fun typeof :: "targetValue \<Rightarrow> string" where
  "typeof JsNull = ''object''"
| "typeof JsUndefined = ''undefined''"
| "typeof JsPrimitive = ''primitive''"
| "typeof JsFunction = ''function''"
| "typeof (JsObject m a) = ''object''"

definition isObject :: "targetValue \<Rightarrow> bool" where
  "isObject v = (if v = JsNull \<or> typeof v \<noteq> ''object'' then False else True)"

text \<open>
  The truthiness of \<^verbatim>\<open>actionName\<close> in \<^verbatim>\<open>actionName && ...\<close>: \<^verbatim>\<open>undefined\<close> and the empty
  string are falsy.
\<close>

fun truthy :: "string option \<Rightarrow> bool" where
  "truthy None = False"
| "truthy (Some a) = (a \<noteq> [])"

section \<open>Creating the middleware\<close>

text \<open>
  Lines 77 to 89 and 295 of \<^verbatim>\<open>actionTrackingMiddleware\<close>. The hooks are given as the fields
  of the closure; the call sets its \<open>actionName\<close>. The result is the error thrown, or the
  middleware object: the closure that \<open>filter\<close> and \<open>mware\<close> below run in, and the model as
  its \<^verbatim>\<open>target\<close>.
\<close>

definition actionTrackingMiddleware ::
  "targetValue \<Rightarrow> 'a closure \<Rightarrow> 'a val + ('a closure \<times> modelValue)" where
  "actionTrackingMiddleware targetArg hooks =
     (if \<not> isObject targetArg then Inl (failure ''target must be an object'')
      else (case targetArg of
              JsObject model actionName' \<Rightarrow>
                (case model of
                   NotAModel \<Rightarrow> Inl (failure ''target must be a model'')
                 | ModelInstance functions \<Rightarrow>
                     if (case actionName' of
                           None \<Rightarrow> False
                         | Some a \<Rightarrow> truthy (Some a) \<and> a \<notin> set functions)
                     then Inl (failure ''action must be a function or undefined'')
                     else Inr (hooks\<lparr>actionName := actionName'\<rparr>, model))
            | _ \<Rightarrow> Inl (failure ''target must be an object'')))"

section \<open>Reading the state of an entry\<close>

text \<open>
  The state of a tracking-data entry that may be absent.
\<close>

definition stateOf :: "Data option \<Rightarrow> lifecycle option" where
  "stateOf d = (case d of None \<Rightarrow> None | Some x \<Rightarrow> state x)"

section \<open>The steps the middleware chain runs\<close>

text \<open>
  Modelled from the spec: the caller of the middleware, which is the middleware chain of the
  action-context layer and not part of the file. It calls the middleware once per execution
  step of every action. A step is a context, the calls the action body makes while the
  step runs (the steps nested in it, in order) and the outcome of the body. The chain asks
  \<open>filter\<close>; if the step is accepted it runs \<open>mware\<close> with the rest of the step as \<^verbatim>\<open>next\<close>,
  and if not it runs the rest of the step without the middleware.
\<close>

datatype 'a call = Call "'a ctx" "'a call list" "'a val + 'a val"

fun runStep :: "'a closure \<Rightarrow> 'a call \<Rightarrow> 'a tracker \<Rightarrow> ('a val + 'a val) \<times> 'a tracker"
  and runSteps :: "'a closure \<Rightarrow> 'a call list \<Rightarrow> 'a tracker \<Rightarrow> 'a tracker" where
  "runStep h (Call c body out) st =
     (case filter h c st of
        (accepted, st1) \<Rightarrow>
          if accepted then mware h c (\<lambda>s. (out, runSteps h body s)) st1
          else (out, runSteps h body st1))"
| "runSteps h [] st = st"
| "runSteps h (x # xs) st = runSteps h xs (snd (runStep h x st))"

text \<open>
  Modelled from the spec: the order in which the context layer produces steps. A sync
  action is one step; an async action is a spawn step, then resume steps, then at most one
  return or throw step, after which the chain has no further step. The first step of an
  invocation (sync or spawn) has no previous step, a data bag no invocation has used, and
  as parent the context of the step that is running when it is called (none at top
  level). A later step of a chain leads back to the chain's spawn step through
  \<open>previousAsyncStepContext\<close> and runs only while no step of that chain is running.

  \<open>proto\<close> checks a step against this protocol. It keeps, for every data bag in use, the
  first context of its invocation and whether a step of the invocation is running
  (\<open>Active\<close>), the invocation waits for its next step (\<open>Waiting\<close>), or it has had its last
  step (\<open>Done\<close>); the result is \<open>None\<close> when a step breaks the protocol.
\<close>

datatype status = Active | Waiting | Done

type_synonym 'a ghost = "nat \<Rightarrow> ('a ctx \<times> status) option"

definition isRootStep :: "'a ctx \<Rightarrow> bool" where
  "isRootStep c =
     (previousAsyncStepContext c = None
      \<and> (type c = Sync \<or> (type c = Async \<and> asyncStepType c = Some Spawn)))"

definition isFinal :: "'a ctx \<Rightarrow> bool" where
  "isFinal c = (asyncStepType c = Some AsyncReturn \<or> asyncStepType c = Some AsyncThrow)"

definition isContinuation :: "'a ctx \<Rightarrow> bool" where
  "isContinuation c =
     (type c = Async
      \<and> (asyncStepType c = Some Resume \<or> asyncStepType c = Some ResumeError \<or> isFinal c)
      \<and> type (chainRoot c) = Async \<and> asyncStepType (chainRoot c) = Some Spawn)"

fun proto :: "'a ctx option \<Rightarrow> 'a call \<Rightarrow> 'a ghost \<Rightarrow> 'a ghost option"
  and protos :: "'a ctx option \<Rightarrow> 'a call list \<Rightarrow> 'a ghost \<Rightarrow> 'a ghost option" where
  "proto enc (Call c body out) g =
     (if isRootStep c then
        (if g (data c) = None \<and> parentContext c = enc then
           (case protos (Some c) body (g(data c \<mapsto> (c, Active))) of
              None \<Rightarrow> None
            | Some g' \<Rightarrow> Some (g'(data c \<mapsto> (c, if type c = Sync then Done else Waiting))))
         else None)
      else if isContinuation c then
        (if g (data (chainRoot c)) = Some (chainRoot c, Waiting) then
           (case protos (Some c) body (g(data (chainRoot c) \<mapsto> (chainRoot c, Active))) of
              None \<Rightarrow> None
            | Some g' \<Rightarrow>
                Some (g'(data (chainRoot c) \<mapsto> (chainRoot c, if isFinal c then Done else Waiting))))
         else None)
      else None)"
| "protos enc [] g = Some g"
| "protos enc (x # xs) g = (case proto enc x g of None \<Rightarrow> None | Some g' \<Rightarrow> protos enc xs g')"

section \<open>The lifecycle graph\<close>

text \<open>
  The moves of the tracking data's state: \<open>idle\<close>, then \<open>started\<close>, then the three states
  \<open>realResumed\<close>, \<open>fakeResumed\<close> and \<open>suspended\<close> in any order, then \<open>finished\<close>. Tracking data
  is created \<open>idle\<close> (\<open>None\<close> is the bag without tracking data), \<open>finished\<close> has no move, and
  \<open>suspended\<close> follows a resumed state only, never \<open>started\<close>.
\<close>

fun allowed :: "lifecycle option \<Rightarrow> lifecycle \<Rightarrow> bool" where
  "allowed None s = (s = idle)"
| "allowed (Some idle) s = (s = started)"
| "allowed (Some started) s = (s = realResumed \<or> s = fakeResumed)"
| "allowed (Some finished) s = False"
| "allowed (Some resumedOrSuspended) s =
     (s = realResumed \<or> s = fakeResumed \<or> s = suspended \<or> s = finished)"

text \<open>
  An entry of the write history is a move of a tracked invocation when the entry it left
  has \<^verbatim>\<open>startAccepted\<close> true; such an entry must follow the graph.
\<close>

fun followsGraph :: "nat \<times> Data option \<times> Data \<Rightarrow> bool" where
  "followsGraph (a, before, after) =
     (if startAccepted after = Some True
      then (case state after of None \<Rightarrow> False | Some s \<Rightarrow> allowed (stateOf before) s)
      else True)"

text \<open>
  The state in which a middleware is created: its \<^verbatim>\<open>dataSymbol\<close> is fresh, so no data bag has
  an entry under it, and no hook has been called.
\<close>

definition created :: "'a tracker" where
  "created = \<lparr>bags = (\<lambda>a. None), calls = [], writes = []\<rparr>"

section \<open>Notions used to state the properties\<close>

text \<open>
  The acceptance flag a data bag carries (undefined when the bag has no tracking data, or
  tracking data without the flag).
\<close>

definition flag :: "'a tracker \<Rightarrow> nat \<Rightarrow> bool option" where
  "flag st a = (case bags st a of None \<Rightarrow> None | Some d \<Rightarrow> startAccepted d)"

text \<open>
  The lifecycle state a data bag carries.
\<close>

definition stateAt :: "'a tracker \<Rightarrow> nat \<Rightarrow> lifecycle option" where
  "stateAt st a = (case bags st a of None \<Rightarrow> None | Some d \<Rightarrow> state d)"

text \<open>
  What a hook reads in the bag of a context whose state the driver has just set to \<open>s\<close>:
  the flag the bag had, and \<open>s\<close>.
\<close>

definition seen :: "'a tracker \<Rightarrow> 'a ctx \<Rightarrow> lifecycle \<Rightarrow> Data option" where
  "seen st c s = Some \<lparr>startAccepted = flag st (data c), state = Some s\<rparr>"

text \<open>
  The driver's write \<^verbatim>\<open>setCtxData(ctx, { state: s })\<close>.
\<close>

definition setState :: "'a ctx \<Rightarrow> lifecycle \<Rightarrow> 'a tracker \<Rightarrow> 'a tracker" where
  "setState c s st = setCtxData c \<lparr>startAccepted = None, state = Some s\<rparr> st"

text \<open>
  The unbroken run of ancestors, from the parent upwards, that are tracked and in state \<open>s\<close>.
\<close>

definition run :: "'a tracker \<Rightarrow> lifecycle \<Rightarrow> 'a ctx \<Rightarrow> 'a ctx list" where
  "run st s c = takeWhile (\<lambda>p. tracked st p s) (ancestors c)"

text \<open>
  The ancestors that \<^verbatim>\<open>suspend\<close> reaches from a context: each guard is read after the
  write to the context below it.
\<close>

fun suspendRun :: "'a ctx \<Rightarrow> 'a tracker \<Rightarrow> 'a ctx list" where
  "suspendRun (ActionContext n t s tg as parentCtx prev d) st =
     (case parentCtx of
        None \<Rightarrow> []
      | Some p \<Rightarrow>
          if tracked (setState (ActionContext n t s tg as parentCtx prev d) suspended st) p fakeResumed
          then p # suspendRun p (setState (ActionContext n t s tg as parentCtx prev d) suspended st)
          else [])"

text \<open>
  The hook calls that concern one invocation: the lifecycle hooks called with its simple
  context.
\<close>

fun concerns :: "'a ctx \<Rightarrow> 'a hookCall \<Rightarrow> bool" where
  "concerns c (FilterCall x) = False"
| "concerns c (OnStart x d) = (x = c)"
| "concerns c (OnResume x d) = (x = c)"
| "concerns c (OnSuspend x d) = (x = c)"
| "concerns c (OnFinish x d r v) = (x = c)"

definition own :: "'a ctx \<Rightarrow> 'a hookCall list \<Rightarrow> 'a hookCall list" where
  "own c es = List.filter (concerns c) es"

text \<open>
  A hook call that sees the state its lifecycle operation has just written.
\<close>

fun seesNewState :: "'a hookCall \<Rightarrow> bool" where
  "seesNewState (FilterCall x) = True"
| "seesNewState (OnStart x d) = (stateOf d = Some started)"
| "seesNewState (OnResume x d) = (stateOf d = Some realResumed \<or> stateOf d = Some fakeResumed)"
| "seesNewState (OnSuspend x d) = (stateOf d = Some suspended)"
| "seesNewState (OnFinish x d r v) = (stateOf d = Some finished)"

text \<open>
  The hook calls of one \<^verbatim>\<open>resume\<close> and of one \<^verbatim>\<open>suspend\<close>, in closed form.
\<close>

definition resumeCalls :: "'a closure \<Rightarrow> 'a tracker \<Rightarrow> 'a ctx \<Rightarrow> bool \<Rightarrow> 'a hookCall list" where
  "resumeCalls h st c real =
     (if hooks_onResume h
      then map (\<lambda>p. OnResume p (seen st p fakeResumed)) (rev (run st suspended c))
           @ [OnResume c (seen st c (if real then realResumed else fakeResumed))]
      else [])"

definition suspendCalls :: "'a closure \<Rightarrow> 'a tracker \<Rightarrow> 'a ctx \<Rightarrow> 'a hookCall list" where
  "suspendCalls h st c =
     (if hooks_onSuspend h
      then map (\<lambda>p. OnSuspend p (seen st p suspended)) (c # suspendRun c st)
      else [])"

definition setStates :: "'a ctx list \<Rightarrow> lifecycle \<Rightarrow> 'a tracker \<Rightarrow> 'a tracker" where
  "setStates ps s st = fold (\<lambda>p. setState p s) ps st"

text \<open>
  The tag and the value \<^verbatim>\<open>finish\<close> receives for the outcome of a callback.
\<close>

definition resultTag :: "'a val + 'a val \<Rightarrow> ActionTrackingResult" where
  "resultTag r = (case r of Inl err \<Rightarrow> Throw | Inr ret \<Rightarrow> Return)"

definition resultValue :: "'a val + 'a val \<Rightarrow> 'a val" where
  "resultValue r = (case r of Inl err \<Rightarrow> err | Inr ret \<Rightarrow> ret)"

text \<open>
  Notions for the history of writes: a history that follows the graph throughout; a bag
  whose state may move to \<open>s\<close>; and a bag that one operation leaves as it is or, for a
  tracked invocation, moves between \<open>suspended\<close> and \<open>fakeResumed\<close>.
\<close>

definition logOK :: "'a tracker \<Rightarrow> bool" where
  "logOK st = list_all followsGraph (writes st)"

definition canMove :: "'a tracker \<Rightarrow> nat \<Rightarrow> lifecycle \<Rightarrow> bool" where
  "canMove st a s = (if flag st a = Some True then allowed (stateAt st a) s else True)"

definition tog :: "'a tracker \<Rightarrow> 'a tracker \<Rightarrow> nat \<Rightarrow> bool" where
  "tog st st' a =
     (bags st' a = bags st a
      \<or> (flag st a = Some True \<and> flag st' a = Some True
         \<and> (stateAt st a = Some suspended \<or> stateAt st a = Some fakeResumed)
         \<and> (stateAt st' a = Some suspended \<or> stateAt st' a = Some fakeResumed)))"

text \<open>
  What the protocol guarantees about the bags in use: the first context of an invocation
  has no previous step and the bag it names, which none of its ancestors shares, and the
  bags of its ancestors are in use too.
\<close>

definition wfg :: "'a ghost \<Rightarrow> bool" where
  "wfg g =
     (\<forall>a r s. g a = Some (r, s) \<longrightarrow>
        data r = a \<and> previousAsyncStepContext r = None
        \<and> data r \<notin> data ` set (ancestors (simplifyActionContext r))
        \<and> (\<forall>p \<in> set (ancestors (simplifyActionContext r)). g (data p) \<noteq> None))"

text \<open>
  The context of the running step belongs to an invocation that is \<open>Active\<close>.
\<close>

definition encOK :: "'a ghost \<Rightarrow> 'a ctx option \<Rightarrow> bool" where
  "encOK g enc =
     (case enc of None \<Rightarrow> True | Some e \<Rightarrow> g (data (chainRoot e)) = Some (chainRoot e, Active))"

text \<open>
  The invariant of a run: a bag not in use has no tracking data; a tracked invocation that
  waits for its next step is resumed or suspended; and the history follows the graph.
\<close>

definition runInv :: "'a ghost \<Rightarrow> 'a tracker \<Rightarrow> bool" where
  "runInv g st =
     ((\<forall>a. g a = None \<longrightarrow> bags st a = None)
      \<and> (\<forall>a r. g a = Some (r, Waiting) \<longrightarrow> flag st a = Some True \<longrightarrow>
             stateAt st a = Some realResumed \<or> stateAt st a = Some fakeResumed
             \<or> stateAt st a = Some suspended)
      \<and> logOK st)"

text \<open>
  The protocol keeps what it knows of a bag in use: its first context, and that it is
  \<open>Active\<close> while an enclosing step runs.
\<close>

definition keeps :: "'a ghost \<Rightarrow> 'a ghost \<Rightarrow> bool" where
  "keeps g g' =
     (\<forall>a r s. g a = Some (r, s) \<longrightarrow>
        (\<exists>s'. g' a = Some (r, s')) \<and> (s = Active \<longrightarrow> g' a = Some (r, Active)))"

text \<open>
  The steps on which the entry point runs the wrapped callback (on the others it throws the
  assertion error), and the steps on which it calls \<^verbatim>\<open>start\<close>.
\<close>

definition proceeds :: "'a closure \<Rightarrow> 'a ctx \<Rightarrow> bool" where
  "proceeds h c =
     (type c = Sync \<or> asyncStepType c = Some Spawn \<or> isFinal c
      \<or> ((asyncStepType c = Some Resume \<or> asyncStepType c = Some ResumeError)
          \<and> resumeSuspendSupport h))"

definition firstStep :: "'a ctx \<Rightarrow> bool" where
  "firstStep c = (type c = Sync \<or> asyncStepType c = Some Spawn)"

text \<open>
  The bags of the invocations whose step is running are left as they are, or moved
  between \<open>suspended\<close> and \<open>fakeResumed\<close>.
\<close>

definition frame :: "'a ghost \<Rightarrow> 'a tracker \<Rightarrow> 'a tracker \<Rightarrow> bool" where
  "frame g st st' = (\<forall>a r. g a = Some (r, Active) \<longrightarrow> tog st st' a)"

text \<open>
  The state a step that proceeds leaves: the start (on a first step), the real resume, the
  callback \<open>K\<close>, the suspend, and the finish when \<open>fin\<close> says so.
\<close>

definition afterStep ::
  "'a closure \<Rightarrow> 'a ctx \<Rightarrow> 'a continuation \<Rightarrow> 'a tracker \<Rightarrow> bool \<Rightarrow> ActionTrackingResult \<Rightarrow> 'a val
     \<Rightarrow> 'a tracker" where
  "afterStep h c K st fin tag v =
     (let sc = simplifyActionContext c;
          st1 = resume h sc True (if firstStep c then start h sc st else st);
          st3 = suspend h sc (snd (K st1))
      in if fin then finish h sc tag v st3 else st3)"


text \<open>
  Between the tracker \<open>st\<close> and the later tracker \<open>st'\<close> the state \<open>s\<close> was written into the
  tracking data of \<open>c\<close>: the history of writes has a new entry for the bag of \<open>c\<close>, and the
  data written is what a hook reads there after the write.
\<close>

definition wrote :: "'a tracker \<Rightarrow> 'a tracker \<Rightarrow> 'a ctx \<Rightarrow> lifecycle \<Rightarrow> bool" where
  "wrote st st' c s =
     ((data c, seen st c s)
        \<in> set (map (\<lambda>(a, b, d). (a, Some d)) (drop (length (writes st)) (writes st'))))"

section \<open>Example contexts\<close>

text \<open>
  The step-chain of an async action \<^verbatim>\<open>fetch\<close>: spawn, one resume, return, sharing the data
  bag at address 7.
\<close>

definition spawnStep :: "nat ctx" where
  "spawnStep = ActionContext ''fetch'' Async (Some Spawn) 0 [1] None None 7"

definition resumeStep :: "nat ctx" where
  "resumeStep = ActionContext ''fetch'' Async (Some Resume) 0 [1] None (Some spawnStep) 7"

definition returnStep :: "nat ctx" where
  "returnStep = ActionContext ''fetch'' Async (Some AsyncReturn) 0 [1] None (Some resumeStep) 7"

text \<open>
  Three nested invocations as simple contexts, each with a data bag of its own (addresses 11,
  12 and 13): \<^verbatim>\<open>outer\<close> called \<^verbatim>\<open>mid\<close>, which called \<^verbatim>\<open>inner\<close>.
\<close>

definition outerCtx :: "nat ctx" where
  "outerCtx = ActionContext ''outer'' Async None 0 [] None None 11"

definition midCtx :: "nat ctx" where
  "midCtx = ActionContext ''mid'' Async None 0 [] (Some outerCtx) None 12"

definition innerCtx :: "nat ctx" where
  "innerCtx = ActionContext ''inner'' Async None 0 [] (Some midCtx) None 13"

text \<open>
  A sync action \<^verbatim>\<open>add\<close> called at top level, with the data bag at address 5.
\<close>

definition addCtx :: "nat ctx" where
  "addCtx = ActionContext ''add'' Sync None 0 [2, 3] None None 5"

text \<open>
  Hooks with and without \<^verbatim>\<open>onResume\<close> and \<^verbatim>\<open>onSuspend\<close>; no \<^verbatim>\<open>actionName\<close>, no \<^verbatim>\<open>filter\<close>.
\<close>

definition hooksAll :: "nat closure" where
  "hooksAll = \<lparr>actionName = None, hooks_filter = None, hooks_onResume = True,
               hooks_onSuspend = True, stepText = (\<lambda>s. [])\<rparr>"

definition hooksPlain :: "nat closure" where
  "hooksPlain = \<lparr>actionName = None, hooks_filter = None, hooks_onResume = False,
                 hooks_onSuspend = False, stepText = (\<lambda>s. [])\<rparr>"

text \<open>
  A tracker with no hook call yet in which the listed bags hold accepted tracking data in
  the listed states.
\<close>

definition acceptedIn :: "lifecycle \<Rightarrow> Data" where
  "acceptedIn s = \<lparr>startAccepted = Some True, state = Some s\<rparr>"

definition trackerOf :: "(nat \<times> lifecycle) list \<Rightarrow> nat tracker" where
  "trackerOf xs = \<lparr>bags = map_of (map (\<lambda>(a, s). (a, acceptedIn s)) xs), calls = [],
                  writes = []\<rparr>"

text \<open>
  Continuations that run no other action: one returns 5, one throws 9.
\<close>

definition returnsFive :: "nat continuation" where
  "returnsFive st = (Inr (Val 5), st)"

definition throwsNine :: "nat continuation" where
  "throwsNine st = (Inl (Val 9), st)"

text \<open>
  Hooks with \<^verbatim>\<open>onResume\<close> and \<^verbatim>\<open>onSuspend\<close> on a middleware that tracks the action
  \<^verbatim>\<open>save\<close> only.
\<close>

definition hooksNamed :: "nat closure" where
  "hooksNamed = \<lparr>actionName = Some ''save'', hooks_filter = None, hooks_onResume = True,
                 hooks_onSuspend = True, stepText = (\<lambda>s. [])\<rparr>"

text \<open>
  The three steps of \<^verbatim>\<open>fetch\<close> at top level, each running no other action: the spawn step,
  a resume step, and the return step returning 5.
\<close>

definition fetchSteps :: "nat call list" where
  "fetchSteps =
     [Call spawnStep [] (Inr (Val 0)), Call resumeStep [] (Inr (Val 0)),
      Call returnStep [] (Inr (Val 5))]"

section \<open>Facts about simplification\<close>

lemma chainRoot_chainSteps: "c' \<in> set (chainSteps c) \<Longrightarrow> chainRoot c' = chainRoot c"
  by (induction c rule: chainSteps.induct) auto

lemma chainRoot_idem: "chainRoot (chainRoot c) = chainRoot c"
  by (induction c rule: chainRoot.induct) auto

lemma chainRoot_fixed: "previousAsyncStepContext c = None \<Longrightarrow> chainRoot c = c"
  by (cases c) auto

lemma simplify_chainRoot: "simplifyActionContext (chainRoot c) = simplifyActionContext c"
  by (simp add: simplifyActionContext.simps[of "chainRoot c"] simplifyActionContext.simps[of c]
      chainRoot_idem)

lemma simplify_fields:
  "name (simplifyActionContext c) = name (chainRoot c)"
  "type (simplifyActionContext c) = type (chainRoot c)"
  "asyncStepType (simplifyActionContext c) = None"
  "target (simplifyActionContext c) = target (chainRoot c)"
  "args (simplifyActionContext c) = args (chainRoot c)"
  "previousAsyncStepContext (simplifyActionContext c) = None"
  "data (simplifyActionContext c) = data (chainRoot c)"
  "parentContext (simplifyActionContext c)
     = map_option simplifyActionContext (parentContext (chainRoot c))"
  by (simp_all add: simplifyActionContext.simps[of c] Let_def split: option.split)

lemma simplify_idem: "simplifyActionContext (simplifyActionContext c) = simplifyActionContext c"
proof (induction c rule: simplifyActionContext.induct)
  case (1 ctx0)
  let ?r = "chainRoot ctx0"
  let ?s = "simplifyActionContext ctx0"
  have root: "chainRoot ?s = ?s"
    by (rule chainRoot_fixed) (rule simplify_fields(6))
  have par: "map_option simplifyActionContext (map_option simplifyActionContext (parentContext ?r))
             = map_option simplifyActionContext (parentContext ?r)"
  proof (cases "parentContext ?r")
    case None
    then show ?thesis by simp
  next
    case (Some p)
    have "simplifyActionContext (simplifyActionContext p) = simplifyActionContext p"
      using "1.IH"[OF refl Some] .
    with Some show ?thesis by simp
  qed
  show ?case
    by (rule ctx.expand) (simp only: simplify_fields root par simp_thms)
qed

section \<open>The driver in closed form\<close>

lemma bags_setState [simp]:
  "bags (setState c s st) = (bags st)(data c \<mapsto> \<lparr>startAccepted = flag st (data c), state = Some s\<rparr>)"
  by (auto simp: setState_def setCtxData_def flag_def assign_def split: option.split)

lemma calls_setState [simp]: "calls (setState c s st) = calls st"
  by (simp add: setState_def setCtxData_def split: option.split)

lemma bags_hook [simp]: "bags (hook e st) = bags st"
  by (simp add: hook_def)

lemma calls_hook [simp]: "calls (hook e st) = calls st @ [e]"
  by (simp add: hook_def)

lemma flag_setState [simp]: "flag (setState c s st) a = flag st a"
  by (simp add: flag_def)

lemma flag_hook [simp]: "flag (hook e st) a = flag st a"
  by (simp add: flag_def)

lemma getCtxData_setState [simp]: "getCtxData (setState c s st) c = seen st c s"
  by (simp add: getCtxData_def seen_def)

lemma tracked_hook [simp]: "tracked (hook e st) p s = tracked st p s"
  by (simp add: tracked_def getCtxData_def)

lemma tracked_calls_update [simp]: "tracked (st\<lparr>calls := cs\<rparr>) p s = tracked st p s"
  by (simp add: tracked_def getCtxData_def)

lemma tracked_setState:
  "tracked (setState c s' st) p s =
     (if data p = data c then flag st (data c) = Some True \<and> s = s' else tracked st p s)"
  by (auto simp: tracked_def getCtxData_def)

lemma tracked_flag: "tracked st p s \<Longrightarrow> flag st (data p) = Some True"
  by (auto simp: tracked_def getCtxData_def flag_def split: option.splits)

lemma tracked_iff: "tracked st p s \<longleftrightarrow> flag st (data p) = Some True \<and> stateAt st (data p) = Some s"
  by (auto simp: tracked_def getCtxData_def flag_def stateAt_def split: option.splits)

lemma start_eq: "start h c st = hook (OnStart c (seen st c started)) (setState c started st)"
  by (simp add: start_def Let_def setState_def[symmetric])

lemma resume_eq:
  "resume h c real st =
     (let st1 = (case parentContext c of
                   None \<Rightarrow> st
                 | Some p \<Rightarrow> if tracked st p suspended then resume h p False st else st);
          st2 = setState c (if real then realResumed else fakeResumed) st1
      in if hooks_onResume h
         then hook (OnResume c (seen st1 c (if real then realResumed else fakeResumed))) st2
         else st2)"
  by (cases c) (auto simp: Let_def setState_def[symmetric] split: option.split)

lemma suspend_eq:
  "suspend h c st =
     (let st1 = setState c suspended st;
          st2 = (if hooks_onSuspend h then hook (OnSuspend c (seen st c suspended)) st1 else st1)
      in case parentContext c of
           None \<Rightarrow> st2
         | Some p \<Rightarrow> if tracked st1 p fakeResumed then suspend h p st2 else st2)"
  by (cases c) (auto simp: Let_def setState_def[symmetric] split: option.split)

lemma finish_eq:
  "finish h c r v st =
     (let st1 = (case parentContext c of
                   None \<Rightarrow> st
                 | Some p \<Rightarrow> if tracked st p suspended then resume h p False st else st);
          st3 = hook (OnFinish c (seen st1 c finished) r v) (setState c finished st1)
      in case parentContext c of
           None \<Rightarrow> st3
         | Some p \<Rightarrow> if tracked st p suspended then suspend h p st3 else st3)"
  by (simp add: finish_def Let_def setState_def[symmetric] split: option.split)


lemma ancestors_eq:
  "ancestors c = (case parentContext c of None \<Rightarrow> [] | Some p \<Rightarrow> p # ancestors p)"
  by (cases c) (auto split: option.split)

lemma run_eq:
  "run st s c = (case parentContext c of
                   None \<Rightarrow> []
                 | Some p \<Rightarrow> if tracked st p s then p # run st s p else [])"
  by (simp add: run_def ancestors_eq[of c] split: option.split)

lemma suspendRun_eq:
  "suspendRun c st = (case parentContext c of
                        None \<Rightarrow> []
                      | Some p \<Rightarrow> if tracked (setState c suspended st) p fakeResumed
                                  then p # suspendRun p (setState c suspended st) else [])"
  by (cases c) (auto split: option.split)

lemma calls_setStates [simp]: "calls (setStates ps s st) = calls st"
  by (induction ps arbitrary: st) (simp_all add: setStates_def)

lemma flag_setStates [simp]: "flag (setStates ps s st) a = flag st a"
  by (induction ps arbitrary: st) (simp_all add: setStates_def)

lemma setStates_simps [simp]:
  "setStates [] s st = st"
  "setStates (p # ps) s st = setStates ps s (setState p s st)"
  "setStates (ps @ qs) s st = setStates qs s (setStates ps s st)"
  by (simp_all add: setStates_def)

lemma stateAt_setState [simp]:
  "stateAt (setState c s st) a = (if a = data c then Some s else stateAt st a)"
  by (simp add: stateAt_def)

lemma stateAt_hook [simp]: "stateAt (hook e st) a = stateAt st a"
  by (simp add: stateAt_def)

lemma stateAt_setStates:
  "stateAt (setStates ps s st) a = (if a \<in> data ` set ps then Some s else stateAt st a)"
  by (induction ps arbitrary: st) auto

lemma seen_flag_cong: "(\<And>a. flag st' a = flag st a) \<Longrightarrow> seen st' c s = seen st c s"
  by (simp add: seen_def)

lemma seen_setState [simp]: "seen (setState c s st) x s' = seen st x s'"
  by (simp add: seen_def)

lemma seen_hook [simp]: "seen (hook e st) x s' = seen st x s'"
  by (simp add: seen_def)

declare resume.simps [simp del] suspend.simps [simp del] suspendRun.simps [simp del]

lemma parent_induct [case_names parent]:
  assumes "\<And>c. (\<And>p. parentContext c = Some p \<Longrightarrow> P p) \<Longrightarrow> P c"
  shows "P c"
proof (induction c rule: measure_induct_rule[where f = size])
  case (less c)
  show ?case
    by (rule assms) (rule less, rule size_parentContext)
qed

lemma resume_closed:
  "bags (resume h c real st)
     = bags (setState c (if real then realResumed else fakeResumed)
               (setStates (rev (run st suspended c)) fakeResumed st))
   \<and> calls (resume h c real st) = calls st @ resumeCalls h st c real
   \<and> (\<forall>a. flag (resume h c real st) a = flag st a)"
proof (induction c arbitrary: real rule: parent_induct)
  case (parent c)
  show ?case
  proof (cases "parentContext c")
    case None
    then show ?thesis
      by (simp add: resume_eq[of h c] run_eq[of st suspended c] resumeCalls_def Let_def)
  next
    case (Some p)
    show ?thesis
    proof (cases "tracked st p suspended")
      case False
      with Some show ?thesis
        by (simp add: resume_eq[of h c] run_eq[of st suspended c] resumeCalls_def Let_def)
    next
      case True
      note ih = parent[OF Some, of False]
      have b: "bags (resume h p False st)
                 = bags (setState p fakeResumed (setStates (rev (run st suspended p)) fakeResumed st))"
        using ih by (simp only: if_False)
      have c: "calls (resume h p False st) = calls st @ resumeCalls h st p False"
        by (rule conjunct1[OF conjunct2[OF ih]])
      have f: "flag (resume h p False st) a = flag st a" for a
        using conjunct2[OF conjunct2[OF ih]] by (rule spec)
      have s: "seen (resume h p False st) c x = seen st c x" for x
        by (rule seen_flag_cong) (rule f)
      have r: "run st suspended c = p # run st suspended p"
        using Some True by (simp add: run_eq[of st suspended c])
      show ?thesis
        using Some True
        by (simp add: resume_eq[of h c] Let_def r b c f s resumeCalls_def)
    qed
  qed
qed


lemma setState_hook: "setState c s (hook e st) = hook e (setState c s st)"
  by (simp add: setState_def setCtxData_def hook_def split: option.split)

lemma setStates_hook: "setStates ps s (hook e st) = hook e (setStates ps s st)"
  by (induction ps arbitrary: st) (simp_all add: setState_hook)

lemma suspendRun_hook: "suspendRun c (hook e st) = suspendRun c st"
proof (induction c arbitrary: st rule: parent_induct)
  case (parent c)
  show ?case
  proof (cases "parentContext c")
    case None
    then show ?thesis by (simp add: suspendRun_eq[of c])
  next
    case (Some p)
    from parent[OF Some, of "setState c suspended st"] Some show ?thesis
      by (simp add: suspendRun_eq[of c] setState_hook)
  qed
qed

lemma suspend_closed:
  "bags (suspend h c st) = bags (setStates (c # suspendRun c st) suspended st)
   \<and> calls (suspend h c st) = calls st @ suspendCalls h st c
   \<and> (\<forall>a. flag (suspend h c st) a = flag st a)"
proof (induction c arbitrary: st rule: parent_induct)
  case (parent c)
  let ?st1 = "setState c suspended st"
  let ?st2 = "if hooks_onSuspend h then hook (OnSuspend c (seen st c suspended)) ?st1 else ?st1"
  show ?case
  proof (cases "parentContext c")
    case None
    then show ?thesis
      by (simp add: suspend_eq[of h c] suspendRun_eq[of c] suspendCalls_def Let_def)
  next
    case (Some p)
    show ?thesis
    proof (cases "tracked ?st1 p fakeResumed")
      case False
      with Some show ?thesis
        by (simp add: suspend_eq[of h c] suspendRun_eq[of c] suspendCalls_def Let_def)
    next
      case True
      note ih = parent[OF Some, of ?st2]
      have r2: "suspendRun p ?st2 = suspendRun p ?st1"
        by (simp add: suspendRun_hook)
      have b: "bags (suspend h p ?st2) = bags (setStates (p # suspendRun p ?st1) suspended ?st1)"
        using conjunct1[OF ih] by (simp add: r2 setState_hook setStates_hook)
      have c: "calls (suspend h p ?st2) = calls ?st2 @ suspendCalls h ?st2 p"
        by (rule conjunct1[OF conjunct2[OF ih]])
      have f: "flag (suspend h p ?st2) a = flag st a" for a
        using spec[OF conjunct2[OF conjunct2[OF ih]], of a] by simp
      have sn: "seen ?st2 x suspended = seen st x suspended" for x
        by (rule seen_flag_cong) simp
      have sc: "suspendCalls h ?st2 p
                = (if hooks_onSuspend h
                   then map (\<lambda>x. OnSuspend x (seen st x suspended)) (p # suspendRun p ?st1) else [])"
        unfolding suspendCalls_def sn by (simp add: suspendRun_hook)
      have r: "suspendRun c st = p # suspendRun p ?st1"
        using Some True by (simp add: suspendRun_eq[of c])
      have e: "suspend h c st = suspend h p ?st2"
        using Some True by (simp add: suspend_eq[of h c] Let_def)
      show ?thesis
        unfolding e
        by (simp add: b c f r suspendCalls_def suspendRun_hook del: bags_setState)
    qed
  qed
qed

section \<open>Ancestors and the calls of one invocation\<close>

lemma ancestors_smaller: "p \<in> set (ancestors c) \<Longrightarrow> size p < size c"
proof (induction c rule: parent_induct)
  case (parent c)
  from parent.prems obtain q where q: "parentContext c = Some q"
    by (cases "parentContext c") (simp_all add: ancestors_eq[of c])
  with parent.prems have p: "p = q \<or> p \<in> set (ancestors q)"
    by (simp add: ancestors_eq[of c])
  from p show ?case
  proof
    assume "p = q" with q show ?thesis by (simp add: size_parentContext)
  next
    assume "p \<in> set (ancestors q)"
    from parent.IH[OF q this] size_parentContext[OF q] show ?thesis by simp
  qed
qed

lemma ancestors_neq: "p \<in> set (ancestors c) \<Longrightarrow> p \<noteq> c"
  using ancestors_smaller by blast

lemma ancestors_parent:
  "parentContext c = Some p \<Longrightarrow> ancestors c = p # ancestors p"
  by (simp add: ancestors_eq[of c])

lemma run_subset: "set (run st s c) \<subseteq> set (ancestors c)"
  by (auto simp: run_def dest: set_takeWhileD)

lemma suspendRun_subset: "set (suspendRun c st) \<subseteq> set (ancestors c)"
proof (induction c arbitrary: st rule: parent_induct)
  case (parent c)
  show ?case
  proof (cases "parentContext c")
    case None
    then show ?thesis by (simp add: suspendRun_eq[of c])
  next
    case (Some p)
    from parent[OF Some, of "setState c suspended st"] Some show ?thesis
      by (auto simp: suspendRun_eq[of c] ancestors_parent)
  qed
qed

lemma run_cong:
  "(\<And>q. q \<in> set (ancestors c) \<Longrightarrow> tracked st' q s = tracked st q s) \<Longrightarrow> run st' s c = run st s c"
  unfolding run_def by (rule takeWhile_cong) simp_all

lemma suspendRun_distinct:
  "distinct (map data (c # ancestors c)) \<Longrightarrow> suspendRun c st = run st fakeResumed c"
proof (induction c arbitrary: st rule: parent_induct)
  case (parent c)
  show ?case
  proof (cases "parentContext c")
    case None
    then show ?thesis by (simp add: suspendRun_eq[of c] run_eq[of st fakeResumed c])
  next
    case (Some p)
    let ?st1 = "setState c suspended st"
    have anc: "ancestors c = p # ancestors p" by (rule ancestors_parent[OF Some])
    from parent.prems anc have dp: "distinct (map data (p # ancestors p))"
      and nc: "\<And>q. q \<in> set (p # ancestors p) \<Longrightarrow> data q \<noteq> data c"
      by (auto simp: image_iff)
    have tr: "tracked ?st1 q fakeResumed = tracked st q fakeResumed" if "q \<in> set (p # ancestors p)" for q
      using nc[OF that] by (simp add: tracked_setState)
    have "suspendRun p ?st1 = run ?st1 fakeResumed p" by (rule parent.IH[OF Some dp])
    also have "\<dots> = run st fakeResumed p" by (rule run_cong) (simp add: tr)
    finally show ?thesis
      using Some tr[of p] by (simp add: suspendRun_eq[of c] run_eq[of st fakeResumed c])
  qed
qed

lemma own_append [simp]: "own c (xs @ ys) = own c xs @ own c ys"
  by (simp add: own_def)

lemma own_simps [simp]:
  "own c [] = []"
  "own c (e # es) = (if concerns c e then e # own c es else own c es)"
  by (simp_all add: own_def)

lemma own_resume_events:
  "c \<notin> set ps \<Longrightarrow> own c (map (\<lambda>p. OnResume p (f p)) ps) = []"
  by (induction ps) auto

lemma own_suspend_events:
  "c \<notin> set ps \<Longrightarrow> own c (map (\<lambda>p. OnSuspend p (f p)) ps) = []"
  by (induction ps) auto

lemma own_resumeCalls:
  "own c (resumeCalls h st c real)
     = (if hooks_onResume h then [OnResume c (seen st c (if real then realResumed else fakeResumed))] else [])"
proof -
  have "c \<notin> set (rev (run st suspended c))"
    using run_subset[of st suspended c] ancestors_neq[of c c] by auto
  then show ?thesis
    by (simp add: resumeCalls_def own_resume_events)
qed

lemma own_suspendCalls:
  "own c (suspendCalls h st c)
     = (if hooks_onSuspend h then [OnSuspend c (seen st c suspended)] else [])"
proof -
  have "c \<notin> set (suspendRun c st)"
    using suspendRun_subset[of c st] ancestors_neq[of c c] by auto
  then show ?thesis
    by (simp add: suspendCalls_def own_suspend_events)
qed

lemma own_resumeCalls_parent:
  assumes "parentContext c = Some p"
  shows "own c (resumeCalls h st p real) = []"
proof -
  have "c \<notin> set (p # ancestors p)"
    using ancestors_neq[of c c] ancestors_parent[OF assms] by auto
  then have "c \<notin> set (rev (run st suspended p))" "p \<noteq> c"
    using run_subset[of st suspended p] by auto
  then show ?thesis
    by (simp add: resumeCalls_def own_resume_events)
qed

lemma own_suspendCalls_parent:
  assumes "parentContext c = Some p"
  shows "own c (suspendCalls h st p) = []"
proof -
  have "c \<notin> set (p # ancestors p)"
    using ancestors_neq[of c c] ancestors_parent[OF assms] by auto
  then have "c \<notin> set (suspendRun p st)" "p \<noteq> c"
    using suspendRun_subset[of p st] by auto
  then show ?thesis
    by (simp add: suspendCalls_def own_suspend_events)
qed

section \<open>Facts about the operations of the driver\<close>

lemma stateAt_bags: "bags st = bags st' \<Longrightarrow> stateAt st a = stateAt st' a"
  by (simp add: stateAt_def)

lemma stateAt_resume:
  "stateAt (resume h c real st) a =
     (if a = data c then Some (if real then realResumed else fakeResumed)
      else if a \<in> data ` set (run st suspended c) then Some fakeResumed
      else stateAt st a)"
proof -
  have "stateAt (resume h c real st) a
        = stateAt (setState c (if real then realResumed else fakeResumed)
                     (setStates (rev (run st suspended c)) fakeResumed st)) a"
    by (rule stateAt_bags) (rule conjunct1[OF resume_closed])
  then show ?thesis by (simp add: stateAt_setStates)
qed

lemma stateAt_suspend:
  "stateAt (suspend h c st) a =
     (if a \<in> data ` set (c # suspendRun c st) then Some suspended else stateAt st a)"
proof -
  have "stateAt (suspend h c st) a = stateAt (setStates (c # suspendRun c st) suspended st) a"
    by (rule stateAt_bags) (rule conjunct1[OF suspend_closed])
  then show ?thesis by (simp only: stateAt_setStates)
qed

lemma calls_resume: "calls (resume h c real st) = calls st @ resumeCalls h st c real"
  by (rule conjunct1[OF conjunct2[OF resume_closed]])

lemma calls_suspend: "calls (suspend h c st) = calls st @ suspendCalls h st c"
  by (rule conjunct1[OF conjunct2[OF suspend_closed]])

lemma flag_resume [simp]: "flag (resume h c real st) a = flag st a"
  using conjunct2[OF conjunct2[OF resume_closed]] by (rule spec)

lemma flag_suspend [simp]: "flag (suspend h c st) a = flag st a"
  using conjunct2[OF conjunct2[OF suspend_closed]] by (rule spec)

lemma seen_resume [simp]: "seen (resume h c real st) x s = seen st x s"
  by (rule seen_flag_cong) simp

lemma seen_suspend [simp]: "seen (suspend h c st) x s = seen st x s"
  by (rule seen_flag_cong) simp

lemma finish_parent:
  assumes "parentContext c = Some p" "tracked st p suspended"
  shows "finish h c r v st
         = suspend h p (hook (OnFinish c (seen st c finished) r v)
                          (setState c finished (resume h p False st)))"
  using assms by (simp add: finish_eq[of h c] Let_def)

lemma finish_plain:
  assumes "parentContext c = None \<or> (\<exists>p. parentContext c = Some p \<and> \<not> tracked st p suspended)"
  shows "finish h c r v st = hook (OnFinish c (seen st c finished) r v) (setState c finished st)"
  using assms by (auto simp: finish_eq[of h c] Let_def)

section \<open>Facts about the example contexts\<close>

lemma example_ancestors:
  "ancestors innerCtx = [midCtx, outerCtx]" "ancestors midCtx = [outerCtx]" "ancestors outerCtx = []"
  by (simp_all add: innerCtx_def midCtx_def outerCtx_def)

lemma example_data: "data innerCtx = 13" "data midCtx = 12" "data outerCtx = 11" "data addCtx = 5"
  by (simp_all add: innerCtx_def midCtx_def outerCtx_def addCtx_def)

lemma example_parents:
  "parentContext innerCtx = Some midCtx" "parentContext midCtx = Some outerCtx"
  "parentContext outerCtx = None" "parentContext addCtx = None"
  by (simp_all add: innerCtx_def midCtx_def outerCtx_def addCtx_def)

lemma trackerOf_simps [simp]:
  "bags (trackerOf xs) a = map_of (map (\<lambda>(a, s). (a, acceptedIn s)) xs) a"
  "calls (trackerOf xs) = []"
  by (simp_all add: trackerOf_def)

lemma tracked_trackerOf:
  "tracked (trackerOf xs) c s = (map_of xs (data c) = Some s)"
  by (induction xs) (auto simp: tracked_def getCtxData_def acceptedIn_def)

lemma flag_trackerOf:
  "flag (trackerOf xs) a = (if a \<in> fst ` set xs then Some True else None)"
  by (induction xs) (auto simp: flag_def acceptedIn_def)

lemma stateAt_trackerOf: "stateAt (trackerOf xs) a = map_of xs a"
  by (induction xs) (auto simp: stateAt_def acceptedIn_def)

lemma seen_trackerOf:
  "seen (trackerOf xs) c s = Some \<lparr>startAccepted = (if data c \<in> fst ` set xs then Some True else None), state = Some s\<rparr>"
  by (simp add: seen_def flag_trackerOf)

section \<open>Facts about finishing\<close>

lemma tracked_parent_during_finish:
  assumes "tracked st p suspended" "data p \<noteq> data c"
  shows "tracked (setState c finished (resume h p False st)) p fakeResumed"
proof -
  have "flag st (data p) = Some True" by (rule tracked_flag[OF assms(1)])
  moreover have "stateAt (resume h p False st) (data p) = Some fakeResumed"
    by (simp add: stateAt_resume)
  ultimately show ?thesis
    using assms(2) by (simp add: tracked_iff)
qed

lemma stateOf_seen [simp]: "stateOf (seen st c s) = Some s"
  by (simp add: stateOf_def seen_def)

lemma seesNewState_resumeCalls: "list_all seesNewState (resumeCalls h st c real)"
  by (auto simp: resumeCalls_def list_all_iff)

lemma seesNewState_suspendCalls: "list_all seesNewState (suspendCalls h st c)"
  by (auto simp: suspendCalls_def list_all_iff)

lemma finish_calls_shape:
  "\<exists>pre post. calls (finish h c r v st) = calls st @ pre @ [OnFinish c (seen st c finished) r v] @ post
      \<and> list_all seesNewState (pre @ post) \<and> own c pre = [] \<and> own c post = []"
proof (cases "\<exists>p. parentContext c = Some p \<and> tracked st p suspended")
  case True
  then obtain p where p: "parentContext c = Some p" and t: "tracked st p suspended" by blast
  let ?st2 = "setState c finished (resume h p False st)"
  let ?st3 = "hook (OnFinish c (seen st c finished) r v) ?st2"
  have "calls (finish h c r v st)
        = calls st @ resumeCalls h st p False @ [OnFinish c (seen st c finished) r v]
          @ suspendCalls h ?st3 p"
    by (simp add: finish_parent[OF p t] calls_suspend calls_resume)
  moreover have "list_all seesNewState (resumeCalls h st p False @ suspendCalls h ?st3 p)"
    by (simp add: seesNewState_resumeCalls seesNewState_suspendCalls)
  moreover have "own c (resumeCalls h st p False) = []" by (rule own_resumeCalls_parent[OF p])
  moreover have "own c (suspendCalls h ?st3 p) = []" by (rule own_suspendCalls_parent[OF p])
  ultimately show ?thesis by blast
next
  case False
  then have "parentContext c = None \<or> (\<exists>p. parentContext c = Some p \<and> \<not> tracked st p suspended)"
    by (cases "parentContext c") auto
  then have "calls (finish h c r v st) = calls st @ [] @ [OnFinish c (seen st c finished) r v] @ []"
    by (simp add: finish_plain)
  moreover have "list_all seesNewState ([] @ [])" "own c [] = []" by simp_all
  ultimately show ?thesis by blast
qed

section \<open>Facts about the entry point\<close>

lemma mware_sync:
  assumes "type ctx = Sync"
  shows "mware h ctx origNext st =
     (let c = simplifyActionContext ctx;
          st1 = resume h c True (start h c st);
          r = fst (origNext st1);
          st3 = suspend h c (snd (origNext st1))
      in (r, finish h c (resultTag r) (resultValue r) st3))"
  using assms
  by (simp add: mware_def wrapNext_def Let_def resultTag_def resultValue_def
      split: prod.split sum.split)

lemma calls_start: "calls (start h c st) = calls st @ [OnStart c (seen st c started)]"
  by (simp add: start_eq)

lemma flag_start [simp]: "flag (start h c st) a = flag st a"
  by (simp add: start_eq)

lemma seen_start [simp]: "seen (start h c st) x s = seen st x s"
  by (rule seen_flag_cong) simp

lemma own_finish:
  "own c (calls (finish h c r v st)) = own c (calls st) @ [OnFinish c (seen st c finished) r v]"
proof -
  from finish_calls_shape[of h c r v st] obtain pre post where
    "calls (finish h c r v st) = calls st @ pre @ [OnFinish c (seen st c finished) r v] @ post"
    "own c pre = []" "own c post = []"
    by blast
  then show ?thesis by simp
qed

lemma calls_finish_no_hooks:
  assumes "\<not> hooks_onResume h" "\<not> hooks_onSuspend h"
  shows "calls (finish h c r v st) = calls st @ [OnFinish c (seen st c finished) r v]"
proof (cases "\<exists>p. parentContext c = Some p \<and> tracked st p suspended")
  case True
  then obtain p where p: "parentContext c = Some p" and t: "tracked st p suspended" by blast
  show ?thesis
    using assms
    by (simp add: finish_parent[OF p t] calls_suspend calls_resume resumeCalls_def suspendCalls_def)
next
  case False
  then have "parentContext c = None \<or> (\<exists>p. parentContext c = Some p \<and> \<not> tracked st p suspended)"
    by (cases "parentContext c") auto
  then show ?thesis by (simp add: finish_plain)
qed

lemma simplify_addCtx: "simplifyActionContext addCtx = addCtx"
  by (simp add: simplifyActionContext.simps[of addCtx]) (simp add: addCtx_def)

lemma type_addCtx: "type addCtx = Sync"
  by (simp add: addCtx_def)

lemma filter_addCtx:
  assumes "actionName h = None" "hooks_filter h = None"
  shows "fst (filter h addCtx (trackerOf []))"
    and "calls (snd (filter h addCtx (trackerOf []))) = []"
    and "flag (snd (filter h addCtx (trackerOf []))) 5 = Some True"
    and "stateAt (snd (filter h addCtx (trackerOf []))) 5 = Some idle"
  using assms
  by (simp_all add: filter_def nameRejected_def type_addCtx acceptStart_def userFilter_def
      setCtxData_def flag_def stateAt_def example_data)

section \<open>Facts about the filter\<close>

lemma flag_finish [simp]: "flag (finish h c r v st) a = flag st a"
  by (cases "parentContext c") (simp_all add: finish_eq[of h c] Let_def)

lemma flag_setCtxData_accept:
  "flag (setCtxData c \<lparr>startAccepted = Some True, state = Some idle\<rparr> st) a
     = (if a = data c then Some True else flag st a)"
  by (simp add: flag_def setCtxData_def assign_def split: option.split)

lemma filter_return_throw:
  assumes "type c = Async" "asyncStepType c = Some AsyncReturn \<or> asyncStepType c = Some AsyncThrow"
  shows "filter h c st
         = (\<not> nameRejected h c \<and> flag st (data (chainRoot c)) = Some True, st)"
  using assms
  by (auto simp: filter_def getCtxData_def flag_def split: option.split)

lemma flag_acceptStart:
  "flag (snd (acceptStart h r st)) a
     = (if fst (acceptStart h r st) \<and> a = data r then Some True else flag st a)"
proof (cases "hooks_filter h")
  case None
  then show ?thesis
    by (simp add: acceptStart_def userFilter_def flag_setCtxData_accept)
next
  case (Some f)
  then show ?thesis
    by (simp add: acceptStart_def userFilter_def flag_setCtxData_accept)
qed

lemma filter_spawn:
  assumes "type r = Async" "asyncStepType r = Some Spawn"
  shows "filter h r st = (if nameRejected h r then (False, st) else acceptStart h r st)"
  using assms by (simp add: filter_def)

lemma filter_spawn_fresh:
  assumes "type r = Async" "asyncStepType r = Some Spawn" "bags st (data r) = None"
  shows "flag (snd (filter h r st)) (data r) = (if fst (filter h r st) then Some True else None)
         \<and> (fst (filter h r st) \<longrightarrow> \<not> nameRejected h r)"
proof -
  have "flag st (data r) = None" using assms(3) by (simp add: flag_def)
  then show ?thesis
    by (simp add: filter_spawn[OF assms(1,2)] flag_acceptStart)
qed

lemma nameRejected_cong:
  "actionName h' = actionName h \<Longrightarrow> name c' = name c \<Longrightarrow> nameRejected h' c' = nameRejected h c"
  by (simp add: nameRejected_def split: option.split)

section \<open>Facts about the history of writes\<close>

lemma writes_setState [simp]:
  "writes (setState c s st)
     = writes st @ [(data c, bags st (data c), \<lparr>startAccepted = flag st (data c), state = Some s\<rparr>)]"
  by (auto simp: setState_def setCtxData_def flag_def assign_def split: option.split)

lemma writes_hook [simp]: "writes (hook e st) = writes st"
  by (simp add: hook_def)

lemma stateOf_bags: "stateOf (bags st a) = stateAt st a"
  by (simp add: stateOf_def stateAt_def)

lemma logOK_setState: "logOK (setState c s st) = (logOK st \<and> canMove st (data c) s)"
  by (auto simp: logOK_def canMove_def stateOf_bags)

lemma logOK_hook [simp]: "logOK (hook e st) = logOK st"
  by (simp add: logOK_def)

lemma tog_refl [simp]: "tog st st a"
  by (simp add: tog_def)

lemma tog_trans: "tog st st' a \<Longrightarrow> tog st' st'' a \<Longrightarrow> tog st st'' a"
  by (auto simp: tog_def flag_def stateAt_def)

lemma tog_bags: "bags st' a = bags st a \<Longrightarrow> tog st st' a"
  by (simp add: tog_def)

lemma tog_hook_right [simp]: "tog st (hook e st') a = tog st st' a"
  by (simp add: tog_def)

lemma tog_hook_left [simp]: "tog (hook e st) st' a = tog st st' a"
  by (simp add: tog_def)

lemma tog_setState_other: "a \<noteq> data c \<Longrightarrow> tog st (setState c s st) a"
  by (simp add: tog_def)

lemma tog_setState_toggle:
  assumes "tracked st c x" "x = suspended \<or> x = fakeResumed" "s = suspended \<or> s = fakeResumed"
  shows "tog st (setState c s st) a"
proof (cases "a = data c")
  case True
  with assms show ?thesis
    by (auto simp: tog_def tracked_iff)
next
  case False
  then show ?thesis by (rule tog_setState_other)
qed

lemma tog_flag: "tog st st' a \<Longrightarrow> flag st' a = flag st a"
  by (auto simp: tog_def flag_def)

lemma tog_None: "tog st st' a \<Longrightarrow> bags st a = None \<Longrightarrow> bags st' a = None"
  by (auto simp: tog_def flag_def)

lemma allowed_cluster:
  "allowed (Some suspended) s = allowed (Some fakeResumed) s"
  "allowed (Some realResumed) s = allowed (Some fakeResumed) s"
  by simp_all

lemma canMove_tog: "tog st st' a \<Longrightarrow> canMove st a s \<Longrightarrow> canMove st' a s"
  by (auto simp: tog_def canMove_def flag_def stateAt_def)

lemma tog_stateAt_fixed:
  assumes "tog st st' a" "stateAt st a \<noteq> Some suspended" "stateAt st a \<noteq> Some fakeResumed"
  shows "bags st' a = bags st a"
  using assms by (auto simp: tog_def)

lemma resume_tog:
  "(\<forall>a. a \<noteq> data c \<longrightarrow> tog st (resume h c real st) a)
   \<and> (tracked st c suspended \<and> \<not> real \<longrightarrow> (\<forall>a. tog st (resume h c real st) a))"
proof (induction c arbitrary: real rule: parent_induct)
  case (parent c)
  define st1 where "st1 = (case parentContext c of
                   None \<Rightarrow> st
                 | Some p \<Rightarrow> if tracked st p suspended then resume h p False st else st)"
  define r where "r = (if real then realResumed else fakeResumed)"
  have all1: "tog st st1 a" for a
  proof (cases "parentContext c")
    case None
    then show ?thesis by (simp add: st1_def)
  next
    case (Some p)
    show ?thesis
    proof (cases "tracked st p suspended")
      case True
      with parent[OF Some, of False] Some show ?thesis by (simp add: st1_def)
    next
      case False
      with Some show ?thesis by (simp add: st1_def)
    qed
  qed
  have e: "tog st (resume h c real st) a = tog st (setState c r st1) a" for a
    by (simp add: resume_eq[of h c] Let_def st1_def r_def)
  have 1: "tog st (resume h c real st) a" if "a \<noteq> data c" for a
    unfolding e using all1[of a] tog_setState_other[OF that, where st = st1 and s = r] by (rule tog_trans)
  have 2: "tog st (resume h c real st) a" if t: "tracked st c suspended" and nr: "\<not> real" for a
  proof (cases "a = data c")
    case False
    then show ?thesis by (rule 1)
  next
    case True
    have f: "flag st1 (data c) = flag st (data c)" by (rule tog_flag[OF all1])
    show ?thesis
      unfolding e using t nr True f
      by (auto simp: tog_def r_def tracked_iff)
  qed
  show ?case using 1 2 by blast
qed

lemma suspend_tog:
  "(\<forall>a. a \<noteq> data c \<longrightarrow> tog st (suspend h c st) a)
   \<and> (tracked st c fakeResumed \<longrightarrow> (\<forall>a. tog st (suspend h c st) a))"
proof (induction c arbitrary: st rule: parent_induct)
  case (parent c)
  define st1 where "st1 = setState c suspended st"
  define st2 where "st2 = (if hooks_onSuspend h then hook (OnSuspend c (seen st c suspended)) st1 else st1)"
  define st' where "st' = (case parentContext c of
           None \<Rightarrow> st2
         | Some p \<Rightarrow> if tracked st1 p fakeResumed then suspend h p st2 else st2)"
  have e: "suspend h c st = st'"
    by (cases "parentContext c") (simp_all add: suspend_eq[of h c] Let_def st1_def st2_def st'_def)
  have t2: "tog x st2 a = tog x st1 a" for x a
    by (simp add: st2_def)
  have tr2: "tracked st2 p s = tracked st1 p s" for p s
    by (simp add: st2_def)
  have all2: "tog st2 st' a" for a
  proof (cases "parentContext c")
    case None
    then show ?thesis by (simp add: st'_def)
  next
    case (Some p)
    show ?thesis
    proof (cases "tracked st1 p fakeResumed")
      case True
      then have "tracked st2 p fakeResumed" by (simp add: tr2)
      with parent[OF Some, of st2] Some True show ?thesis by (simp add: st'_def)
    next
      case False
      with Some show ?thesis by (simp add: st'_def)
    qed
  qed
  have all12: "tog st1 st' a" for a
    using all2[of a] by (auto simp: tog_def st2_def flag_def stateAt_def split: if_splits)
  have 1: "tog st (suspend h c st) a" if "a \<noteq> data c" for a
    unfolding e using tog_setState_other[OF that, where st = st and s = suspended] all12[of a]
    unfolding st1_def[symmetric] by (rule tog_trans)
  have 2: "tog st (suspend h c st) a" if t: "tracked st c fakeResumed" for a
    unfolding e using tog_setState_toggle[OF t, where s = suspended and a = a] all12[of a]
    unfolding st1_def[symmetric] by (auto intro: tog_trans)
  show ?case using 1 2 by blast
qed

section \<open>The operations of the driver follow the graph\<close>

lemma canMove_tracked:
  "tracked st p x \<Longrightarrow> allowed (Some x) s \<Longrightarrow> canMove st (data p) s"
  by (simp add: canMove_def tracked_iff)

lemma start_logOK: "logOK st \<Longrightarrow> canMove st (data c) started \<Longrightarrow> logOK (start h c st)"
  by (simp add: start_eq logOK_setState)

lemma resume_logOK:
  "logOK st \<Longrightarrow> canMove st (data c) (if real then realResumed else fakeResumed)
   \<Longrightarrow> logOK (resume h c real st)"
proof (induction c arbitrary: real rule: parent_induct)
  case (parent c)
  define st1 where "st1 = (case parentContext c of
                   None \<Rightarrow> st
                 | Some p \<Rightarrow> if tracked st p suspended then resume h p False st else st)"
  define r where "r = (if real then realResumed else fakeResumed)"
  have l1: "logOK st1" and t1: "tog st st1 a" for a
  proof -
    have "logOK st1 \<and> (\<forall>a. tog st st1 a)"
    proof (cases "parentContext c")
      case None
      with parent.prems show ?thesis by (simp add: st1_def)
    next
      case (Some p)
      show ?thesis
      proof (cases "tracked st p suspended")
        case True
        have "canMove st (data p) (if False then realResumed else fakeResumed)"
          using canMove_tracked[OF True, of fakeResumed] by simp
        from parent.IH[OF Some parent.prems(1) this] resume_tog[of p st h False] Some True
        show ?thesis by (simp add: st1_def)
      next
        case False
        with Some parent.prems show ?thesis by (simp add: st1_def)
      qed
    qed
    then show "logOK st1" "tog st st1 a" by simp_all
  qed
  have "canMove st1 (data c) r"
    using canMove_tog[OF t1] parent.prems(2) by (simp add: r_def)
  with l1 have "logOK (setState c r st1)" by (simp add: logOK_setState)
  then show ?case
    by (simp add: resume_eq[of h c] Let_def st1_def r_def)
qed

lemma suspend_logOK:
  "logOK st \<Longrightarrow> canMove st (data c) suspended \<Longrightarrow> logOK (suspend h c st)"
proof (induction c arbitrary: st rule: parent_induct)
  case (parent c)
  define st1 where "st1 = setState c suspended st"
  define st2 where "st2 = (if hooks_onSuspend h then hook (OnSuspend c (seen st c suspended)) st1 else st1)"
  have l2: "logOK st2"
    using parent.prems by (simp add: st2_def st1_def logOK_setState)
  have tr2: "tracked st2 p s = tracked st1 p s" for p s
    by (simp add: st2_def)
  have e: "suspend h c st = (case parentContext c of
           None \<Rightarrow> st2
         | Some p \<Rightarrow> if tracked st1 p fakeResumed then suspend h p st2 else st2)"
    by (cases "parentContext c") (simp_all add: suspend_eq[of h c] Let_def st1_def st2_def)
  show ?case
  proof (cases "parentContext c")
    case None
    with l2 show ?thesis by (simp add: e)
  next
    case (Some p)
    show ?thesis
    proof (cases "tracked st1 p fakeResumed")
      case True
      then have "tracked st2 p fakeResumed" by (simp add: tr2)
      then have "canMove st2 (data p) suspended" by (rule canMove_tracked) simp
      from parent.IH[OF Some l2 this] Some True show ?thesis by (simp add: e)
    next
      case False
      with Some l2 show ?thesis by (simp add: e)
    qed
  qed
qed

lemma finish_logOK:
  assumes "logOK st" "canMove st (data c) finished"
    and "\<And>p. parentContext c = Some p \<Longrightarrow> data p \<noteq> data c"
  shows "logOK (finish h c r v st)"
proof (cases "\<exists>p. parentContext c = Some p \<and> tracked st p suspended")
  case True
  then obtain p where p: "parentContext c = Some p" and t: "tracked st p suspended" by blast
  let ?st1 = "resume h p False st"
  let ?st2 = "setState c finished ?st1"
  let ?st3 = "hook (OnFinish c (seen st c finished) r v) ?st2"
  have "canMove st (data p) (if False then realResumed else fakeResumed)"
    using canMove_tracked[OF t, of fakeResumed] by simp
  then have l1: "logOK ?st1" by (rule resume_logOK[OF assms(1)])
  have "tog st ?st1 (data c)" using resume_tog[of p st h False] t by simp
  then have "canMove ?st1 (data c) finished" using assms(2) by (rule canMove_tog)
  with l1 have l3: "logOK ?st3" by (simp add: logOK_setState)
  have "tracked ?st2 p fakeResumed"
    by (rule tracked_parent_during_finish[OF t assms(3)[OF p]])
  then have "tracked ?st3 p fakeResumed" by simp
  then have "canMove ?st3 (data p) suspended" by (rule canMove_tracked) simp
  with l3 have "logOK (suspend h p ?st3)" by (rule suspend_logOK)
  then show ?thesis by (simp add: finish_parent[OF p t])
next
  case False
  then have "parentContext c = None \<or> (\<exists>p. parentContext c = Some p \<and> \<not> tracked st p suspended)"
    by (cases "parentContext c") auto
  then show ?thesis using assms(1,2) by (simp add: finish_plain logOK_setState)
qed

lemma start_tog: "a \<noteq> data c \<Longrightarrow> tog st (start h c st) a"
  by (simp add: start_eq tog_setState_other)

lemma finish_tog:
  assumes "\<And>p. parentContext c = Some p \<Longrightarrow> data p \<noteq> data c" "a \<noteq> data c"
  shows "tog st (finish h c r v st) a"
proof (cases "\<exists>p. parentContext c = Some p \<and> tracked st p suspended")
  case True
  then obtain p where p: "parentContext c = Some p" and t: "tracked st p suspended" by blast
  let ?st1 = "resume h p False st"
  let ?st2 = "setState c finished ?st1"
  let ?st3 = "hook (OnFinish c (seen st c finished) r v) ?st2"
  have 1: "tog st ?st1 a" using resume_tog[of p st h False] t by simp
  have 2: "tog ?st1 ?st3 a" using tog_setState_other[OF assms(2), where st = ?st1 and s = finished]
    by simp
  have "tracked ?st2 p fakeResumed"
    by (rule tracked_parent_during_finish[OF t assms(1)[OF p]])
  then have "tracked ?st3 p fakeResumed" by simp
  then have 3: "tog ?st3 (suspend h p ?st3) a" using suspend_tog[of p ?st3 h] by simp
  show ?thesis
    unfolding finish_parent[OF p t] using tog_trans[OF tog_trans[OF 1 2] 3] .
next
  case False
  then have "parentContext c = None \<or> (\<exists>p. parentContext c = Some p \<and> \<not> tracked st p suspended)"
    by (cases "parentContext c") auto
  then show ?thesis using assms(2) by (simp add: finish_plain tog_setState_other)
qed

lemma stateAt_start_own [simp]: "stateAt (start h c st) (data c) = Some started"
  by (simp add: start_eq)

lemma stateAt_resume_own: "stateAt (resume h c real st) (data c) = Some (if real then realResumed else fakeResumed)"
  by (simp add: stateAt_resume)

lemma stateAt_suspend_own: "stateAt (suspend h c st) (data c) = Some suspended"
  by (simp add: stateAt_suspend)

lemma stateAt_finish_own:
  assumes "data c \<notin> data ` set (ancestors c)"
  shows "stateAt (finish h c r v st) (data c) = Some finished"
proof (cases "\<exists>p. parentContext c = Some p \<and> tracked st p suspended")
  case True
  then obtain p where p: "parentContext c = Some p" and t: "tracked st p suspended" by blast
  let ?st3 = "hook (OnFinish c (seen st c finished) r v) (setState c finished (resume h p False st))"
  have "set (p # suspendRun p ?st3) \<subseteq> set (ancestors c)"
    using suspendRun_subset[of p ?st3] ancestors_parent[OF p] by auto
  then have "data c \<notin> data ` set (p # suspendRun p ?st3)"
    using assms by blast
  then show ?thesis
    by (simp only: finish_parent[OF p t] stateAt_suspend if_False) simp
next
  case False
  then have "parentContext c = None \<or> (\<exists>p. parentContext c = Some p \<and> \<not> tracked st p suspended)"
    by (cases "parentContext c") auto
  then show ?thesis by (simp add: finish_plain)
qed

section \<open>Facts about the protocol\<close>

lemma proto_Call_cases:
  assumes "proto enc (Call c body out) g = Some g'"
  obtains (root) gb where "isRootStep c" "g (data c) = None" "parentContext c = enc"
      "protos (Some c) body (g(data c \<mapsto> (c, Active))) = Some gb"
      "g' = gb(data c \<mapsto> (c, if type c = Sync then Done else Waiting))"
    | (cont) gb where "\<not> isRootStep c" "isContinuation c"
      "g (data (chainRoot c)) = Some (chainRoot c, Waiting)"
      "protos (Some c) body (g(data (chainRoot c) \<mapsto> (chainRoot c, Active))) = Some gb"
      "g' = gb(data (chainRoot c) \<mapsto> (chainRoot c, if isFinal c then Done else Waiting))"
  using assms by (auto split: if_splits option.splits)

lemma root_chainRoot: "isRootStep c \<Longrightarrow> chainRoot c = c"
  by (simp add: isRootStep_def chainRoot_fixed)

text \<open>Both kinds of step, as one: the bag \<open>data (chainRoot c)\<close> becomes \<open>Active\<close> for the body.\<close>

lemma proto_Call_uniform:
  assumes "proto enc (Call c body out) g = Some g'"
  obtains gb s' where
      "protos (Some c) body (g(data (chainRoot c) \<mapsto> (chainRoot c, Active))) = Some gb"
      "g' = gb(data (chainRoot c) \<mapsto> (chainRoot c, s'))"
      "g (data (chainRoot c)) = None \<or> g (data (chainRoot c)) = Some (chainRoot c, Waiting)"
  using assms
proof (cases rule: proto_Call_cases)
  case (root gb)
  then show ?thesis using that[of gb] by (simp add: root_chainRoot)
next
  case (cont gb)
  then show ?thesis using that[of gb] by simp
qed

lemma keeps_refl: "keeps g g"
  by (simp add: keeps_def)

lemma keeps_trans: "keeps g g1 \<Longrightarrow> keeps g1 g2 \<Longrightarrow> keeps g g2"
  unfolding keeps_def by (metis (no_types, opaque_lifting))

lemma keeps_step:
  assumes "g a0 = None \<or> g a0 = Some (r0, Waiting)" "keeps (g(a0 \<mapsto> (r0, Active))) gb"
  shows "keeps g (gb(a0 \<mapsto> (r0, s0)))"
  unfolding keeps_def
proof (intro allI impI)
  fix a r s
  assume a: "g a = Some (r, s)"
  show "(\<exists>s'. (gb(a0 \<mapsto> (r0, s0))) a = Some (r, s'))
        \<and> (s = Active \<longrightarrow> (gb(a0 \<mapsto> (r0, s0))) a = Some (r, Active))"
  proof (cases "a = a0")
    case True
    with a assms(1) show ?thesis by auto
  next
    case False
    then have "(g(a0 \<mapsto> (r0, Active))) a = Some (r, s)" using a by simp
    with assms(2) have "(\<exists>s'. gb a = Some (r, s')) \<and> (s = Active \<longrightarrow> gb a = Some (r, Active))"
      unfolding keeps_def by blast
    with False show ?thesis by simp
  qed
qed

lemma keepsD: "keeps g g' \<Longrightarrow> g a = Some (r, s) \<Longrightarrow> \<exists>s'. g' a = Some (r, s')"
  unfolding keeps_def by blast

lemma keeps_ActiveD: "keeps g g' \<Longrightarrow> g a = Some (r, Active) \<Longrightarrow> g' a = Some (r, Active)"
  unfolding keeps_def by blast

lemma keeps_NoneD: "keeps g g' \<Longrightarrow> g' a = None \<Longrightarrow> g a = None"
  unfolding keeps_def by (cases "g a") fastforce+

lemma protos_keeps_list:
  assumes "\<And>x enc g g'. x \<in> set xs \<Longrightarrow> proto enc x g = Some g' \<Longrightarrow> keeps g g'"
  shows "protos enc xs g = Some g' \<Longrightarrow> keeps g g'"
  using assms
proof (induction xs arbitrary: g)
  case Nil
  then show ?case by (simp add: keeps_refl)
next
  case (Cons x xs)
  from Cons.prems(1) obtain g1 where 1: "proto enc x g = Some g1" and 2: "protos enc xs g1 = Some g'"
    by (auto split: option.splits)
  have "keeps g g1" using Cons.prems(2)[OF _ 1] by simp
  moreover have "keeps g1 g'"
  proof (rule Cons.IH[OF 2])
    fix y enc g g'
    assume "y \<in> set xs" "proto enc y g = Some g'"
    then show "keeps g g'" using Cons.prems(2)[of y enc g g'] by simp
  qed
  ultimately show ?case by (rule keeps_trans)
qed

lemma proto_keeps: "proto enc x g = Some g' \<Longrightarrow> keeps g g'"
proof (induction x arbitrary: enc g g')
  case (Call c body out)
  from Call.prems obtain gb s' where
    b: "protos (Some c) body (g(data (chainRoot c) \<mapsto> (chainRoot c, Active))) = Some gb"
    and g': "g' = gb(data (chainRoot c) \<mapsto> (chainRoot c, s'))"
    and o: "g (data (chainRoot c)) = None \<or> g (data (chainRoot c)) = Some (chainRoot c, Waiting)"
    by (rule proto_Call_uniform)
  have "keeps (g(data (chainRoot c) \<mapsto> (chainRoot c, Active))) gb"
    using b by (rule protos_keeps_list[rotated]) (rule Call.IH)
  with o show ?case unfolding g' by (rule keeps_step)
qed

lemma protos_keeps: "protos enc xs g = Some g' \<Longrightarrow> keeps g g'"
  by (rule protos_keeps_list[rotated]) (auto intro: proto_keeps)


lemma wfg_restatus:
  assumes "wfg g" "g a0 = Some (r0, s)"
  shows "wfg (g(a0 \<mapsto> (r0, s')))"
  unfolding wfg_def
proof (intro allI impI)
  fix a r t
  assume e: "(g(a0 \<mapsto> (r0, s'))) a = Some (r, t)"
  then have "\<exists>t'. g a = Some (r, t')" using assms(2) by (cases "a = a0") auto
  then obtain t' where "g a = Some (r, t')" by blast
  with assms(1) have w: "data r = a" "previousAsyncStepContext r = None"
    "data r \<notin> data ` set (ancestors (simplifyActionContext r))"
    "\<forall>p \<in> set (ancestors (simplifyActionContext r)). g (data p) \<noteq> None"
    unfolding wfg_def by blast+
  from w(4) have "\<forall>p \<in> set (ancestors (simplifyActionContext r)). (g(a0 \<mapsto> (r0, s'))) (data p) \<noteq> None"
    by simp
  with w(1,2,3) show "data r = a \<and> previousAsyncStepContext r = None
     \<and> data r \<notin> data ` set (ancestors (simplifyActionContext r))
     \<and> (\<forall>p \<in> set (ancestors (simplifyActionContext r)). (g(a0 \<mapsto> (r0, s'))) (data p) \<noteq> None)"
    by blast
qed

lemma ancestors_simplify_root:
  assumes "isRootStep c"
  shows "ancestors (simplifyActionContext c)
         = (case parentContext c of
              None \<Rightarrow> []
            | Some e \<Rightarrow> simplifyActionContext (chainRoot e)
                        # ancestors (simplifyActionContext (chainRoot e)))"
  using assms
  by (simp add: ancestors_eq[of "simplifyActionContext c"] simplify_fields root_chainRoot
      simplify_chainRoot split: option.split)

lemma data_simplify_chainRoot: "data (simplifyActionContext (chainRoot e)) = data (chainRoot e)"
  by (simp add: simplify_fields chainRoot_idem)

lemma wfg_register:
  assumes "wfg g" "isRootStep c" "g (data c) = None" "encOK g (parentContext c)"
  shows "wfg (g(data c \<mapsto> (c, Active)))"
  unfolding wfg_def
proof (intro allI impI)
  fix a r t
  let ?g1 = "g(data c \<mapsto> (c, Active))"
  assume e: "?g1 a = Some (r, t)"
  show "data r = a \<and> previousAsyncStepContext r = None
     \<and> data r \<notin> data ` set (ancestors (simplifyActionContext r))
     \<and> (\<forall>p \<in> set (ancestors (simplifyActionContext r)). ?g1 (data p) \<noteq> None)"
  proof (cases "a = data c")
    case False
    with e have "g a = Some (r, t)" by simp
    with assms(1) have w: "data r = a" "previousAsyncStepContext r = None"
      "data r \<notin> data ` set (ancestors (simplifyActionContext r))"
      "\<forall>p \<in> set (ancestors (simplifyActionContext r)). g (data p) \<noteq> None"
      unfolding wfg_def by blast+
    from w(4) have "\<forall>p \<in> set (ancestors (simplifyActionContext r)). ?g1 (data p) \<noteq> None"
      by simp
    with w(1,2,3) show ?thesis by blast
  next
    case True
    with e have r: "r = c" by simp
    have reg: "\<forall>p \<in> set (ancestors (simplifyActionContext c)). g (data p) \<noteq> None"
    proof (cases "parentContext c")
      case None
      then show ?thesis by (simp add: ancestors_simplify_root[OF assms(2)])
    next
      case (Some e0)
      with assms(4) have en: "g (data (chainRoot e0)) = Some (chainRoot e0, Active)"
        by (simp add: encOK_def)
      with assms(1) have "\<forall>p \<in> set (ancestors (simplifyActionContext (chainRoot e0))). g (data p) \<noteq> None"
        unfolding wfg_def by blast
      with en Some show ?thesis
        by (simp add: ancestors_simplify_root[OF assms(2)] data_simplify_chainRoot)
    qed
    then have "data c \<notin> data ` set (ancestors (simplifyActionContext c))"
      using assms(3) by force
    moreover have "\<forall>p \<in> set (ancestors (simplifyActionContext c)). ?g1 (data p) \<noteq> None"
      using reg by simp
    moreover have "previousAsyncStepContext c = None" using assms(2) by (simp add: isRootStep_def)
    ultimately show ?thesis using r True by simp
  qed
qed

lemma encOK_keeps: "encOK g enc \<Longrightarrow> keeps g g' \<Longrightarrow> encOK g' enc"
  by (cases enc) (auto simp: encOK_def dest: keeps_ActiveD)

lemma encOK_body: "encOK (g(data (chainRoot c) \<mapsto> (chainRoot c, Active))) (Some c)"
  by (simp add: encOK_def)

lemma wfg_activate:
  assumes "proto enc (Call c body out) g = Some g'" "wfg g" "encOK g enc"
  shows "wfg (g(data (chainRoot c) \<mapsto> (chainRoot c, Active)))"
  using assms(1)
proof (cases rule: proto_Call_cases)
  case (root gb)
  with assms(2,3) show ?thesis
    using wfg_register[of g c] by (simp add: root_chainRoot)
next
  case (cont gb)
  with assms(2) show ?thesis using wfg_restatus by blast
qed

lemma protos_wfg_list:
  assumes "\<And>x enc g g'. x \<in> set xs \<Longrightarrow> proto enc x g = Some g' \<Longrightarrow> wfg g \<Longrightarrow> encOK g enc \<Longrightarrow> wfg g'"
  shows "protos enc xs g = Some g' \<Longrightarrow> wfg g \<Longrightarrow> encOK g enc \<Longrightarrow> wfg g'"
  using assms
proof (induction xs arbitrary: g)
  case Nil
  then show ?case by simp
next
  case (Cons x xs)
  from Cons.prems(1) obtain g1 where 1: "proto enc x g = Some g1" and 2: "protos enc xs g1 = Some g'"
    by (auto split: option.splits)
  have w1: "wfg g1" using Cons.prems(4)[OF _ 1 Cons.prems(2,3)] by simp
  have e1: "encOK g1 enc" using Cons.prems(3) proto_keeps[OF 1] by (rule encOK_keeps)
  show ?case
  proof (rule Cons.IH[OF 2 w1 e1])
    fix y enc g g'
    assume "y \<in> set xs" "proto enc y g = Some g'" "wfg g" "encOK g enc"
    then show "wfg g'" using Cons.prems(4)[of y enc g g'] by simp
  qed
qed

lemma proto_wfg: "proto enc x g = Some g' \<Longrightarrow> wfg g \<Longrightarrow> encOK g enc \<Longrightarrow> wfg g'"
proof (induction x arbitrary: enc g g')
  case (Call c body out)
  let ?o = "data (chainRoot c)"
  let ?g1 = "g(?o \<mapsto> (chainRoot c, Active))"
  from Call.prems(1) obtain gb s' where
    b: "protos (Some c) body ?g1 = Some gb"
    and g': "g' = gb(?o \<mapsto> (chainRoot c, s'))"
    by (rule proto_Call_uniform)
  have w1: "wfg ?g1" by (rule wfg_activate[OF Call.prems])
  have wb: "wfg gb"
    using b w1 encOK_body by (rule protos_wfg_list[rotated]) (rule Call.IH)
  have "gb ?o = Some (chainRoot c, Active)"
    using protos_keeps[OF b] by (rule keeps_ActiveD) simp
  with wb show ?case unfolding g' by (rule wfg_restatus)
qed

section \<open>The shape of one step\<close>

lemma mware_shape:
  assumes "proceeds h c"
  shows "\<exists>fin tag v. snd (mware h c K st) = afterStep h c K st fin tag v
           \<and> (fin \<longrightarrow> type c = Sync \<or> isFinal c)"
proof (cases "type c = Sync")
  case True
  then have "snd (mware h c K st)
      = afterStep h c K st True
          (resultTag (fst (K (resume h (simplifyActionContext c) True (start h (simplifyActionContext c) st)))))
          (resultValue (fst (K (resume h (simplifyActionContext c) True (start h (simplifyActionContext c) st)))))"
    by (simp add: mware_sync Let_def firstStep_def afterStep_def)
  with True show ?thesis by blast
next
  case False
  then have a: "type c = Async" by (cases "type c") simp_all
  let ?sc = "simplifyActionContext c"
  consider (spawn) "asyncStepType c = Some Spawn"
    | (ret) "asyncStepType c = Some AsyncReturn" | (thr) "asyncStepType c = Some AsyncThrow"
    | (res) "asyncStepType c = Some Resume \<or> asyncStepType c = Some ResumeError" "resumeSuspendSupport h"
    using assms False by (auto simp: proceeds_def isFinal_def)
  then show ?thesis
  proof cases
    case spawn
    then have "snd (mware h c K st) = afterStep h c K st False Return undefined"
      using a by (simp add: mware_def wrapNext_def Let_def firstStep_def afterStep_def split: prod.split)
    then show ?thesis by blast
  next
    case res
    then have "snd (mware h c K st) = afterStep h c K st False Return undefined"
      using a by (auto simp: mware_def wrapNext_def Let_def firstStep_def afterStep_def split: prod.split)
    then show ?thesis by blast
  next
    case ret
    let ?k = "K (resume h ?sc True st)"
    show ?thesis
    proof (cases "fst ?k")
      case (Inl e)
      then have "snd (mware h c K st) = afterStep h c K st False Return undefined"
        using a ret
        by (auto simp: mware_def wrapNext_def Let_def firstStep_def afterStep_def split: prod.split)
      then show ?thesis by blast
    next
      case (Inr w)
      then have "snd (mware h c K st) = afterStep h c K st True Return w"
        using a ret
        by (auto simp: mware_def wrapNext_def Let_def firstStep_def afterStep_def split: prod.split)
      moreover have "isFinal c" using ret by (simp add: isFinal_def)
      ultimately show ?thesis by blast
    qed
  next
    case thr
    let ?k = "K (resume h ?sc True st)"
    show ?thesis
    proof (cases "fst ?k")
      case (Inl e)
      then have "snd (mware h c K st) = afterStep h c K st False Return undefined"
        using a thr
        by (auto simp: mware_def wrapNext_def Let_def firstStep_def afterStep_def split: prod.split)
      then show ?thesis by blast
    next
      case (Inr w)
      then have "snd (mware h c K st) = afterStep h c K st True Throw w"
        using a thr
        by (auto simp: mware_def wrapNext_def Let_def firstStep_def afterStep_def split: prod.split)
      moreover have "isFinal c" using thr by (simp add: isFinal_def)
      ultimately show ?thesis by blast
    qed
  qed
qed

lemma filter_bags_other: "a \<noteq> data c \<Longrightarrow> bags (snd (filter h c st)) a = bags st a"
  by (auto simp: filter_def acceptStart_def userFilter_def setCtxData_def hook_def
      split: option.split ActionContextAsyncStepType.split)

lemma filter_reject:
  "\<not> fst (filter h c st) \<Longrightarrow>
     bags (snd (filter h c st)) = bags st \<and> writes (snd (filter h c st)) = writes st"
  by (auto simp: filter_def acceptStart_def userFilter_def hook_def
      split: option.split ActionContextAsyncStepType.split if_splits)

lemma filter_accept_root:
  assumes "isRootStep c" "fst (filter h c st)" "bags st (data c) = None"
  shows "flag (snd (filter h c st)) (data c) = Some True"
    and "stateAt (snd (filter h c st)) (data c) = Some idle"
    and "writes (snd (filter h c st))
         = writes st @ [(data c, None, \<lparr>startAccepted = Some True, state = Some idle\<rparr>)]"
  using assms
  by (auto simp: isRootStep_def filter_def acceptStart_def userFilter_def hook_def setCtxData_def
      flag_def stateAt_def split: option.split if_splits)

lemma filter_cont:
  assumes "isContinuation c"
  shows "snd (filter h c st) = st" and "fst (filter h c st) \<Longrightarrow> proceeds h c"
  using assms
  by (auto simp: isContinuation_def isFinal_def filter_def proceeds_def getCtxData_def
      split: option.split if_splits)

lemma root_proceeds: "isRootStep c \<Longrightarrow> proceeds h c \<and> firstStep c"
  by (auto simp: isRootStep_def proceeds_def firstStep_def)

lemma root_spawn_not_final: "isRootStep c \<Longrightarrow> type c \<noteq> Sync \<Longrightarrow> \<not> isFinal c"
  by (auto simp: isRootStep_def isFinal_def)

lemma cont_not_first: "isContinuation c \<Longrightarrow> \<not> firstStep c \<and> type c \<noteq> Sync"
  by (auto simp: isContinuation_def firstStep_def isFinal_def)

section \<open>The invariant of a run\<close>

lemma invD1: "runInv g st \<Longrightarrow> g a = None \<Longrightarrow> bags st a = None"
  by (simp add: runInv_def)

lemma invD2:
  "runInv g st \<Longrightarrow> g a = Some (r, Waiting) \<Longrightarrow> flag st a = Some True \<Longrightarrow>
     stateAt st a = Some realResumed \<or> stateAt st a = Some fakeResumed \<or> stateAt st a = Some suspended"
  unfolding runInv_def by blast

lemma invD3: "runInv g st \<Longrightarrow> logOK st"
  by (simp add: runInv_def)

lemma invI:
  assumes "\<And>a. g a = None \<Longrightarrow> bags st a = None"
    and "\<And>a r. g a = Some (r, Waiting) \<Longrightarrow> flag st a = Some True \<Longrightarrow>
           stateAt st a = Some realResumed \<or> stateAt st a = Some fakeResumed \<or> stateAt st a = Some suspended"
    and "logOK st"
  shows "runInv g st"
  unfolding runInv_def using assms by blast

lemma tog_settled:
  assumes "tog st st' a"
    and "flag st a = Some True \<Longrightarrow>
           stateAt st a = Some realResumed \<or> stateAt st a = Some fakeResumed \<or> stateAt st a = Some suspended"
    and "flag st' a = Some True"
  shows "stateAt st' a = Some realResumed \<or> stateAt st' a = Some fakeResumed \<or> stateAt st' a = Some suspended"
  using assms by (auto simp: tog_def flag_def stateAt_def)

lemma stateAt_of_bags: "bags st' a = bags st a \<Longrightarrow> stateAt st' a = stateAt st a"
  by (simp add: stateAt_def)

lemma flag_of_bags: "bags st' a = bags st a \<Longrightarrow> flag st' a = flag st a"
  by (simp add: flag_def)

lemma driver_open:
  assumes l0: "logOK s0"
    and cm: "canMove s0 (data sc) (if first then started else realResumed)"
  shows "logOK (resume h sc True (if first then start h sc s0 else s0))"
    and "stateAt (resume h sc True (if first then start h sc s0 else s0)) (data sc) = Some realResumed"
    and "\<And>a. a \<noteq> data sc \<Longrightarrow> tog s0 (resume h sc True (if first then start h sc s0 else s0)) a"
proof -
  let ?s = "if first then start h sc s0 else s0"
  have l: "logOK ?s" using l0 cm by (cases first) (simp_all add: start_logOK)
  have "canMove ?s (data sc) realResumed"
    using cm by (cases first) (simp_all add: canMove_def)
  then have "canMove ?s (data sc) (if True then realResumed else fakeResumed)" by simp
  with l show "logOK (resume h sc True ?s)" by (rule resume_logOK)
  show "stateAt (resume h sc True ?s) (data sc) = Some realResumed"
    by (simp add: stateAt_resume_own)
  fix a
  assume a: "a \<noteq> data sc"
  have 1: "tog s0 ?s a" using a by (simp add: start_tog)
  have 2: "tog ?s (resume h sc True ?s) a" using a resume_tog[of sc ?s h True] by simp
  show "tog s0 (resume h sc True ?s) a" using 1 2 by (rule tog_trans)
qed

lemma driver_close:
  assumes na: "data sc \<notin> data ` set (ancestors sc)"
    and l2: "logOK st2"
    and own: "stateAt st2 (data sc) = Some realResumed"
  shows "logOK (if fin then finish h sc tag v (suspend h sc st2) else suspend h sc st2)"
    and "\<And>a. a \<noteq> data sc \<Longrightarrow>
            tog st2 (if fin then finish h sc tag v (suspend h sc st2) else suspend h sc st2) a"
    and "\<not> fin \<Longrightarrow>
            stateAt (if fin then finish h sc tag v (suspend h sc st2) else suspend h sc st2) (data sc)
              = Some suspended"
proof -
  let ?s3 = "suspend h sc st2"
  have par: "data p \<noteq> data sc" if "parentContext sc = Some p" for p
    using na ancestors_parent[OF that] by force
  have "canMove st2 (data sc) suspended" using own by (simp add: canMove_def)
  with l2 have l3: "logOK ?s3" by (rule suspend_logOK)
  have "stateAt ?s3 (data sc) = Some suspended" by (rule stateAt_suspend_own)
  then have "canMove ?s3 (data sc) finished" by (simp add: canMove_def)
  with l3 have "logOK (finish h sc tag v ?s3)" using par by (rule finish_logOK)
  with l3 show "logOK (if fin then finish h sc tag v ?s3 else ?s3)" by simp
  show "\<not> fin \<Longrightarrow> stateAt (if fin then finish h sc tag v ?s3 else ?s3) (data sc) = Some suspended"
    by (simp add: stateAt_suspend_own)
  fix a
  assume a: "a \<noteq> data sc"
  have 1: "tog st2 ?s3 a" using a suspend_tog[of sc st2 h] by simp
  have 2: "tog ?s3 (finish h sc tag v ?s3) a" using par a by (rule finish_tog)
  show "tog st2 (if fin then finish h sc tag v ?s3 else ?s3) a"
    using 1 tog_trans[OF 1 2] by simp
qed

lemma steps_inv_list:
  assumes "\<And>x enc g g' st. x \<in> set xs \<Longrightarrow> proto enc x g = Some g' \<Longrightarrow> wfg g \<Longrightarrow> encOK g enc
             \<Longrightarrow> runInv g st \<Longrightarrow> runInv g' (snd (runStep h x st)) \<and> frame g st (snd (runStep h x st))"
  shows "protos enc xs g = Some g' \<Longrightarrow> wfg g \<Longrightarrow> encOK g enc \<Longrightarrow> runInv g st
         \<Longrightarrow> runInv g' (runSteps h xs st) \<and> frame g st (runSteps h xs st)"
  using assms
proof (induction xs arbitrary: g st)
  case Nil
  then show ?case by (simp add: frame_def)
next
  case (Cons x xs)
  from Cons.prems(1) obtain g1 where 1: "proto enc x g = Some g1" and 2: "protos enc xs g1 = Some g'"
    by (auto split: option.splits)
  let ?s1 = "snd (runStep h x st)"
  have x: "runInv g1 ?s1 \<and> frame g st ?s1"
    using Cons.prems(5)[OF _ 1 Cons.prems(2,3,4)] by simp
  have w1: "wfg g1" by (rule proto_wfg[OF 1 Cons.prems(2,3)])
  have k: "keeps g g1" by (rule proto_keeps[OF 1])
  have e1: "encOK g1 enc" using Cons.prems(3) k by (rule encOK_keeps)
  have r: "runInv g' (runSteps h xs ?s1) \<and> frame g1 ?s1 (runSteps h xs ?s1)"
  proof (rule Cons.IH[OF 2 w1 e1])
    show "runInv g1 ?s1" using x by simp
  next
    fix y enc g g' st
    assume "y \<in> set xs" "proto enc y g = Some g'" "wfg g" "encOK g enc" "runInv g st"
    then show "runInv g' (snd (runStep h y st)) \<and> frame g st (snd (runStep h y st))"
      using Cons.prems(5)[of y enc g g' st] by simp
  qed
  have "frame g st (runSteps h xs ?s1)"
    unfolding frame_def
  proof (intro allI impI)
    fix a r
    assume a: "g a = Some (r, Active)"
    then have "g1 a = Some (r, Active)" using k by (rule keeps_ActiveD[rotated])
    with r have "tog ?s1 (runSteps h xs ?s1) a" unfolding frame_def by blast
    moreover have "tog st ?s1 a" using x a unfolding frame_def by blast
    ultimately show "tog st (runSteps h xs ?s1) a" by (rule tog_trans[rotated])
  qed
  with r show ?case by simp
qed


lemma runStep_accepted:
  assumes "fst (filter h c st)" "proceeds h c"
  shows "\<exists>fin tag v.
           snd (runStep h (Call c body out) st)
             = afterStep h c (\<lambda>s. (out, runSteps h body s)) (snd (filter h c st)) fin tag v
           \<and> (fin \<longrightarrow> type c = Sync \<or> isFinal c)"
  using assms(1) mware_shape[OF assms(2), of "\<lambda>s. (out, runSteps h body s)" "snd (filter h c st)"]
  by (simp add: split_beta)

lemma runStep_rejected:
  assumes "\<not> fst (filter h c st)"
  shows "snd (runStep h (Call c body out) st) = runSteps h body (snd (filter h c st))"
  using assms by (simp add: split_beta)

lemma step_inv:
  "proto enc x g = Some g' \<Longrightarrow> wfg g \<Longrightarrow> encOK g enc \<Longrightarrow> runInv g st
   \<Longrightarrow> runInv g' (snd (runStep h x st)) \<and> frame g st (snd (runStep h x st))"
proof (induction x arbitrary: enc g g' st)
  case (Call c body out)
  define r where "r = chainRoot c"
  define oa where "oa = data r"
  define sc where "sc = simplifyActionContext c"
  define g1 where "g1 = g(oa \<mapsto> (r, Active))"
  define sF where "sF = snd (filter h c st)"
  from Call.prems(1) obtain gb s' where
    b0: "protos (Some c) body (g(data (chainRoot c) \<mapsto> (chainRoot c, Active))) = Some gb"
    and g'0: "g' = gb(data (chainRoot c) \<mapsto> (chainRoot c, s'))"
    and go0: "g (data (chainRoot c)) = None \<or> g (data (chainRoot c)) = Some (chainRoot c, Waiting)"
    by (rule proto_Call_uniform)
  have b: "protos (Some c) body g1 = Some gb" using b0 by (simp add: g1_def oa_def r_def)
  have g': "g' = gb(oa \<mapsto> (r, s'))" using g'0 by (simp add: oa_def r_def)
  have go: "g oa = None \<or> g oa = Some (r, Waiting)" using go0 by (simp add: oa_def r_def)
  have w1: "wfg g1" using wfg_activate[OF Call.prems(1,2,3)] by (simp add: g1_def oa_def r_def)
  have e1: "encOK g1 (Some c)" using encOK_body[of g c] by (simp add: g1_def oa_def r_def)
  have kb: "keeps g1 gb" by (rule protos_keeps[OF b])
  have dsc: "data sc = oa" by (simp add: sc_def oa_def r_def simplify_fields)
  have "simplifyActionContext r = sc" by (simp add: sc_def r_def simplify_chainRoot)
  moreover have "g1 oa = Some (r, Active)" by (simp add: g1_def)
  ultimately have na: "data sc \<notin> data ` set (ancestors sc)"
    using w1 dsc unfolding wfg_def by metis
  have body: "runInv gb (runSteps h body s) \<and> frame g1 s (runSteps h body s)" if "runInv g1 s" for s
    using b w1 e1 that by (rule steps_inv_list[rotated]) (rule Call.IH)
  have notActive: "a \<noteq> oa" if "g a = Some (q, Active)" for a q
    using go that by auto
  have g1_other: "g1 a = g a" if "a \<noteq> oa" for a using that by (simp add: g1_def)
  have g'_other: "g' a = gb a" if "a \<noteq> oa" for a using that by (simp add: g')
  have g'_None: "a \<noteq> oa \<and> gb a = None" if "g' a = None" for a
    using that by (cases "a = oa") (simp_all add: g')
  have gb_None: "g a = None \<and> a \<noteq> oa" if "gb a = None" for a
  proof -
    have "g1 a = None" using kb that by (rule keeps_NoneD)
    then show ?thesis by (cases "a = oa") (simp_all add: g1_def)
  qed
  \<comment> \<open>the filter\<close>
  have rootcase: "isRootStep c \<and> oa = data c \<and> g oa = None \<and> \<not> isContinuation c \<or> isContinuation c \<and> \<not> isRootStep c \<and> g oa = Some (r, Waiting)"
    using Call.prems(1)
  proof (cases rule: proto_Call_cases)
    case (root gb0)
    moreover have "\<not> isContinuation c" using root(1)
      by (auto simp: isRootStep_def isContinuation_def isFinal_def chainRoot_fixed)
    ultimately show ?thesis by (simp add: oa_def r_def root_chainRoot)
  next
    case (cont gb0)
    then show ?thesis by (simp add: oa_def r_def)
  qed
  have bF: "bags sF a = bags st a" if "a \<noteq> oa" for a
  proof -
    from rootcase show ?thesis
    proof
      assume "isRootStep c \<and> oa = data c \<and> g oa = None \<and> \<not> isContinuation c"
      then have "a \<noteq> data c" using that by simp
      then show ?thesis unfolding sF_def by (rule filter_bags_other)
    next
      assume "isContinuation c \<and> \<not> isRootStep c \<and> g oa = Some (r, Waiting)"
      then show ?thesis by (simp add: sF_def filter_cont)
    qed
  qed
  have togF: "tog st sF a" if "a \<noteq> oa" for a
    using bF[OF that] by (rule tog_bags)
  have lF: "logOK sF"
  proof (cases "fst (filter h c st)")
    case False
    then show ?thesis using invD3[OF Call.prems(4)] filter_reject[OF False]
      by (simp add: sF_def logOK_def)
  next
    case True
    from rootcase show ?thesis
    proof
      assume rc: "isRootStep c \<and> oa = data c \<and> g oa = None \<and> \<not> isContinuation c"
      then have "bags st (data c) = None" using invD1[OF Call.prems(4), of oa] by metis
      from filter_accept_root(3)[OF _ True this] rc invD3[OF Call.prems(4)]
      show ?thesis by (simp add: sF_def logOK_def stateOf_def)
    next
      assume "isContinuation c \<and> \<not> isRootStep c \<and> g oa = Some (r, Waiting)"
      then show ?thesis using invD3[OF Call.prems(4)] by (simp add: sF_def filter_cont)
    qed
  qed
  \<comment> \<open>the invariant for the body holds in every state that differs from \<open>sF\<close> by toggles off the own bag\<close>
  have inv1: "runInv g1 s" if l: "logOK s" and t: "\<And>a. a \<noteq> oa \<Longrightarrow> tog sF s a" for s
  proof (rule invI)
    fix a assume "g1 a = None"
    then have a: "a \<noteq> oa" "g a = None" by (auto simp: g1_def split: if_splits)
    then have "bags sF a = None" using invD1[OF Call.prems(4)] bF by simp
    with t[OF a(1)] show "bags s a = None" by (rule tog_None)
  next
    fix a q assume q: "g1 a = Some (q, Waiting)" and f: "flag s a = Some True"
    then have a: "a \<noteq> oa" "g a = Some (q, Waiting)" by (auto simp: g1_def split: if_splits)
    have tt: "tog st s a" using togF[OF a(1)] t[OF a(1)] by (rule tog_trans)
    show "stateAt s a = Some realResumed \<or> stateAt s a = Some fakeResumed \<or> stateAt s a = Some suspended"
      using tt invD2[OF Call.prems(4) a(2)] f by (rule tog_settled)
  qed (rule l)
  \<comment> \<open>the invariant after the step, from the invariant after the body\<close>
  have inv': "runInv g' s4"
    if ib: "runInv gb s2" and l: "logOK s4" and t: "\<And>a. a \<noteq> oa \<Longrightarrow> tog s2 s4 a"
      and own: "s' = Waiting \<Longrightarrow> flag s4 oa = Some True \<Longrightarrow>
                  stateAt s4 oa = Some realResumed \<or> stateAt s4 oa = Some fakeResumed
                  \<or> stateAt s4 oa = Some suspended"
    for s2 s4
  proof (rule invI)
    fix a assume "g' a = None"
    then have a: "a \<noteq> oa" "gb a = None" using g'_None by simp_all
    from t[OF a(1)] invD1[OF ib a(2)] show "bags s4 a = None" by (rule tog_None)
  next
    fix a q assume q: "g' a = Some (q, Waiting)" and f: "flag s4 a = Some True"
    show "stateAt s4 a = Some realResumed \<or> stateAt s4 a = Some fakeResumed \<or> stateAt s4 a = Some suspended"
    proof (cases "a = oa")
      case True
      with q have "s' = Waiting" by (simp add: g')
      with own f True show ?thesis by simp
    next
      case False
      with q have "gb a = Some (q, Waiting)" by (simp add: g')
      from t[OF False] invD2[OF ib this] f show ?thesis by (rule tog_settled)
    qed
  qed (rule l)
  show ?case
  proof (cases "fst (filter h c st)")
    case False
    have res: "snd (runStep h (Call c body out) st) = runSteps h body sF"
      unfolding sF_def by (rule runStep_rejected[OF False])
    have i1: "runInv g1 sF" using lF by (rule inv1) simp
    note bd = body[OF i1]
    have ownf: "tog sF (runSteps h body sF) oa"
      using bd unfolding frame_def g1_def by simp
    have bagsF: "bags sF = bags st" using filter_reject[OF False] by (simp add: sF_def)
    have own: "stateAt (runSteps h body sF) oa = Some realResumed
                 \<or> stateAt (runSteps h body sF) oa = Some fakeResumed
                 \<or> stateAt (runSteps h body sF) oa = Some suspended"
      if sw: "s' = Waiting" and f: "flag (runSteps h body sF) oa = Some True"
    proof -
      have f0: "flag st oa = Some True" using tog_flag[OF ownf] f bagsF by (simp add: flag_def)
      then have nn: "bags st oa \<noteq> None" by (auto simp: flag_def split: option.splits)
      have "g oa \<noteq> None"
      proof
        assume "g oa = None"
        then have "bags st oa = None" by (rule invD1[OF Call.prems(4)])
        with nn show False by simp
      qed
      with go have "g oa = Some (r, Waiting)" by simp
      from invD2[OF Call.prems(4) this f0]
      have cs: "stateAt sF oa = Some realResumed \<or> stateAt sF oa = Some fakeResumed \<or> stateAt sF oa = Some suspended"
        using bagsF by (simp add: stateAt_def)
      show ?thesis using ownf cs f by (rule tog_settled)
    qed
    have i': "runInv g' (runSteps h body sF)"
      using conjunct1[OF bd] invD3[OF conjunct1[OF bd]] by (rule inv') (simp_all add: own)
    have fr: "frame g st (runSteps h body sF)"
      unfolding frame_def
    proof (intro allI impI)
      fix a q assume a: "g a = Some (q, Active)"
      then have ao: "a \<noteq> oa" by (rule notActive)
      then have "g1 a = Some (q, Active)" using a by (simp add: g1_def)
      with bd have "tog sF (runSteps h body sF) a" unfolding frame_def by blast
      with togF[OF ao] show "tog st (runSteps h body sF) a" by (rule tog_trans)
    qed
    show ?thesis unfolding res using i' fr by simp
  next
    case True
    have pr: "proceeds h c"
      using rootcase root_proceeds[of c h] filter_cont(2)[of c h st] True by blast
    from runStep_accepted[OF True pr, of body out] obtain fin tag v where
      res: "snd (runStep h (Call c body out) st)
            = afterStep h c (\<lambda>s. (out, runSteps h body s)) sF fin tag v"
      and fin: "fin \<Longrightarrow> type c = Sync \<or> isFinal c"
      unfolding sF_def by blast
    define st1 where "st1 = resume h sc True (if firstStep c then start h sc sF else sF)"
    define st2 where "st2 = runSteps h body st1"
    define st4 where "st4 = (if fin then finish h sc tag v (suspend h sc st2) else suspend h sc st2)"
    have res4: "snd (runStep h (Call c body out) st) = st4"
      unfolding res afterStep_def Let_def sc_def[symmetric] st1_def[symmetric] st2_def st4_def
      by simp
    have cm: "canMove sF (data sc) (if firstStep c then started else realResumed)"
      using rootcase
    proof
      assume rc: "isRootStep c \<and> oa = data c \<and> g oa = None \<and> \<not> isContinuation c"
      then have n: "bags st (data c) = None" using invD1[OF Call.prems(4), of oa] by metis
      have oc: "oa = data c" using rc by simp
      from filter_accept_root(1,2)[OF _ True n] rc root_proceeds[of c h]
      show ?thesis by (simp add: canMove_def dsc oc sF_def)
    next
      assume cc: "isContinuation c \<and> \<not> isRootStep c \<and> g oa = Some (r, Waiting)"
      then have s: "sF = st" by (simp add: sF_def filter_cont)
      from cc invD2[OF Call.prems(4), of oa r] cont_not_first[of c]
      show ?thesis by (auto simp: canMove_def dsc s)
    qed
    note op = driver_open[OF lF cm, where h = h, folded st1_def]
    have i1: "runInv g1 st1" using op(1) op(3) by (rule inv1) (simp add: dsc)
    note bd = body[OF i1, folded st2_def]
    have "tog st1 st2 oa" using bd unfolding frame_def g1_def by simp
    then have "bags st2 oa = bags st1 oa"
      by (rule tog_stateAt_fixed) (simp_all add: op(2)[unfolded dsc])
    then have own2: "stateAt st2 (data sc) = Some realResumed"
      using op(2) by (simp add: dsc stateAt_def)
    note cl = driver_close[OF na invD3[OF conjunct1[OF bd]] own2, where fin = fin and h = h and tag = tag and v = v, folded st4_def]
    have notfin: "\<not> fin" if "s' = Waiting"
    proof
      assume f: fin
      from Call.prems(1) show False
      proof (cases rule: proto_Call_cases)
        case (root gb0)
        then have "g' oa = Some (r, if type c = Sync then Done else Waiting)"
          by (simp add: oa_def r_def root_chainRoot)
        with that have ns: "type c \<noteq> Sync" by (auto simp: g' split: if_splits)
        with root_spawn_not_final[OF root(1)] fin[OF f] show False by simp
      next
        case (cont gb0)
        then have "g' oa = Some (r, if isFinal c then Done else Waiting)"
          by (simp add: oa_def r_def)
        with that have "\<not> isFinal c" by (auto simp: g' split: if_splits)
        with cont_not_first[OF cont(2)] fin[OF f] show False by simp
      qed
    qed
    have i': "runInv g' st4"
      using conjunct1[OF bd] cl(1)
    proof (rule inv')
      fix a assume "a \<noteq> oa"
      then show "tog st2 st4 a" using cl(2) by (simp add: dsc)
    next
      assume "s' = Waiting"
      then have "\<not> fin" by (rule notfin)
      then show "stateAt st4 oa = Some realResumed \<or> stateAt st4 oa = Some fakeResumed
                 \<or> stateAt st4 oa = Some suspended"
        using cl(3) by (simp add: dsc)
    qed
    have fr: "frame g st st4"
      unfolding frame_def
    proof (intro allI impI)
      fix a q assume a: "g a = Some (q, Active)"
      then have ao: "a \<noteq> oa" by (rule notActive)
      then have "g1 a = Some (q, Active)" using a by (simp add: g1_def)
      with bd have 3: "tog st1 st2 a" unfolding frame_def by blast
      have 1: "tog st sF a" by (rule togF[OF ao])
      have 2: "tog sF st1 a" using op(3) ao by (simp add: dsc)
      have 4: "tog st2 st4 a" using cl(2) ao by (simp add: dsc)
      show "tog st st4 a" using tog_trans[OF tog_trans[OF tog_trans[OF 1 2] 3] 4] .
    qed
    show ?thesis unfolding res4 using i' fr by simp
  qed
qed

section \<open>Runs from the creation of the middleware\<close>

lemma wfg_empty: "wfg (\<lambda>a. None)"
  by (simp add: wfg_def)

lemma runInv_created: "runInv (\<lambda>a. None) created"
  by (simp add: runInv_def created_def logOK_def)

lemma steps_inv:
  assumes "protos enc xs g = Some g'" "wfg g" "encOK g enc" "runInv g st"
  shows "runInv g' (runSteps h xs st) \<and> frame g st (runSteps h xs st)"
  using assms by (rule steps_inv_list[rotated]) (rule step_inv)

lemma fetch_protocol:
  "protos None fetchSteps (\<lambda>a. None) = Some ((\<lambda>a. None)(7 \<mapsto> (spawnStep, Done)))"
  by (simp add: fetchSteps_def isRootStep_def isContinuation_def isFinal_def
      spawnStep_def resumeStep_def returnStep_def)

section \<open>What the operations of the driver add to the history of writes\<close>

lemma wroteI:
  "writes st' = writes st @ ws1 @ (data c, b, \<lparr>startAccepted = flag st (data c), state = Some s\<rparr>) # ws2
   \<Longrightarrow> wrote st st' c s"
  by (force simp: wrote_def seen_def)

lemma writes_resume:
  "\<exists>ws b. writes (resume h c real st)
      = writes st @ ws @ [(data c, b, \<lparr>startAccepted = flag st (data c),
                                       state = Some (if real then realResumed else fakeResumed)\<rparr>)]"
proof (induction c arbitrary: real rule: parent_induct)
  case (parent c)
  define st1 where "st1 = (case parentContext c of
                   None \<Rightarrow> st
                 | Some p \<Rightarrow> if tracked st p suspended then resume h p False st else st)"
  have "\<exists>ws. writes st1 = writes st @ ws"
  proof (cases "parentContext c")
    case None
    then show ?thesis by (simp add: st1_def)
  next
    case (Some p)
    from parent.IH[OF Some, of False] obtain ws b where
      "writes (resume h p False st) = writes st @ ws @ [(data p, b, \<lparr>startAccepted = flag st (data p), state = Some fakeResumed\<rparr>)]"
      by auto
    with Some show ?thesis by (simp add: st1_def)
  qed
  then obtain ws where ws: "writes st1 = writes st @ ws" by blast
  have f: "flag st1 a = flag st a" for a
    by (cases "parentContext c") (simp_all add: st1_def)
  show ?case
    by (simp add: resume_eq[of h c] Let_def st1_def[symmetric] ws f)
qed

lemma writes_suspend:
  "\<exists>ws. writes (suspend h c st)
      = writes st @ (data c, bags st (data c),
                     \<lparr>startAccepted = flag st (data c), state = Some suspended\<rparr>) # ws"
proof (induction c arbitrary: st rule: parent_induct)
  case (parent c)
  define st1 where "st1 = setState c suspended st"
  define st2 where "st2 = (if hooks_onSuspend h then hook (OnSuspend c (seen st c suspended)) st1 else st1)"
  have w2: "writes st2 = writes st @ [(data c, bags st (data c),
                     \<lparr>startAccepted = flag st (data c), state = Some suspended\<rparr>)]"
    by (simp add: st2_def st1_def)
  have e: "suspend h c st = (case parentContext c of
           None \<Rightarrow> st2
         | Some p \<Rightarrow> if tracked st1 p fakeResumed then suspend h p st2 else st2)"
    by (cases "parentContext c") (simp_all add: suspend_eq[of h c] Let_def st1_def st2_def)
  show ?case
  proof (cases "parentContext c")
    case None
    with w2 show ?thesis by (simp add: e)
  next
    case (Some p)
    show ?thesis
    proof (cases "tracked st1 p fakeResumed")
      case True
      from parent.IH[OF Some, of st2] obtain ws where
        "writes (suspend h p st2) = writes st2 @ (data p, bags st2 (data p),
                     \<lparr>startAccepted = flag st2 (data p), state = Some suspended\<rparr>) # ws"
        by blast
      with Some True w2 show ?thesis by (simp add: e)
    next
      case False
      with Some w2 show ?thesis by (simp add: e)
    qed
  qed
qed

lemma writes_suspend_ext: "\<exists>ws. writes (suspend h c st) = writes st @ ws"
  using writes_suspend[of h c st] by blast

lemma wrote_start: "wrote st (start h c st) c started"
  by (rule wroteI[where ?ws1.0 = "[]" and ?ws2.0 = "[]" and b = "bags st (data c)"])
     (simp add: start_eq)

lemma wrote_resume: "wrote st (resume h c real st) c (if real then realResumed else fakeResumed)"
proof -
  from writes_resume[of h c real st] obtain ws b where
    "writes (resume h c real st)
      = writes st @ ws @ [(data c, b, \<lparr>startAccepted = flag st (data c),
                                       state = Some (if real then realResumed else fakeResumed)\<rparr>)]"
    by blast
  then show ?thesis by (rule wroteI)
qed

lemma wrote_suspend: "wrote st (suspend h c st) c suspended"
proof -
  from writes_suspend[of h c st] obtain ws where
    "writes (suspend h c st)
      = writes st @ (data c, bags st (data c),
                     \<lparr>startAccepted = flag st (data c), state = Some suspended\<rparr>) # ws"
    by blast
  then show ?thesis by (rule wroteI[where ?ws1.0 = "[]", simplified])
qed

lemma wrote_finish: "wrote st (finish h c r v st) c finished"
proof (cases "\<exists>p. parentContext c = Some p \<and> tracked st p suspended")
  case True
  then obtain p where p: "parentContext c = Some p" and t: "tracked st p suspended" by blast
  let ?st1 = "resume h p False st"
  let ?st3 = "hook (OnFinish c (seen st c finished) r v) (setState c finished ?st1)"
  from writes_resume[of h p False st] obtain ws1 where
    w1: "writes ?st1 = writes st @ ws1" by auto
  from writes_suspend_ext[of h p ?st3] obtain ws2 where
    w2: "writes (suspend h p ?st3) = writes ?st3 @ ws2" by blast
  have "writes (finish h c r v st)
        = writes st @ ws1 @ (data c, bags ?st1 (data c),
                              \<lparr>startAccepted = flag st (data c), state = Some finished\<rparr>) # ws2"
    by (simp add: finish_parent[OF p t] w2 w1)
  then show ?thesis by (rule wroteI)
next
  case False
  then have "parentContext c = None \<or> (\<exists>p. parentContext c = Some p \<and> \<not> tracked st p suspended)"
    by (cases "parentContext c") auto
  from finish_plain[OF this] show ?thesis
    by (intro wroteI[where ?ws1.0 = "[]" and ?ws2.0 = "[]" and b = "bags st (data c)"]) simp
qed

section \<open>Simplification\<close>

text \<open>
  C4. Any two contexts of one step-chain simplify to the same simple context, whose data bag
  is the bag of the chain's root; and simplifying a simplified context changes nothing
  (name, type, target, args, data and, recursively, the parent context are equal).
\<close>

theorem simplify_same_chain_idempotent:
  "(\<forall>c1 \<in> set (chainSteps c). \<forall>c2 \<in> set (chainSteps c).
      simplifyActionContext c1 = simplifyActionContext c2
      \<and> data (simplifyActionContext c1) = data (chainRoot c))
   \<and> simplifyActionContext (simplifyActionContext c) = simplifyActionContext c"
proof -
  have "simplifyActionContext c1 = simplifyActionContext c2
        \<and> data (simplifyActionContext c1) = data (chainRoot c)"
    if "c1 \<in> set (chainSteps c)" "c2 \<in> set (chainSteps c)" for c1 c2
  proof -
    from that have r: "chainRoot c1 = chainRoot c" "chainRoot c2 = chainRoot c"
      by (simp_all add: chainRoot_chainSteps)
    have "simplifyActionContext c1 = simplifyActionContext (chainRoot c)"
      using simplify_chainRoot[of c1] r(1) by simp
    moreover have "simplifyActionContext c2 = simplifyActionContext (chainRoot c)"
      using simplify_chainRoot[of c2] r(2) by simp
    moreover have "data (simplifyActionContext c1) = data (chainRoot c)"
      using simplify_fields(7)[of c1] r(1) by simp
    ultimately show ?thesis by simp
  qed
  then show ?thesis using simplify_idem[of c] by blast
qed

lemma chainSteps_returnStep: "chainSteps returnStep = [returnStep, resumeStep, spawnStep]"
  by (simp add: returnStep_def resumeStep_def spawnStep_def)

lemma chainRoot_returnStep: "chainRoot returnStep = spawnStep"
  by (simp add: returnStep_def resumeStep_def spawnStep_def)

theorem simplify_same_chain_idempotent_witness:
  "resumeStep \<in> set (chainSteps returnStep) \<and> spawnStep \<in> set (chainSteps returnStep)
   \<and> simplifyActionContext resumeStep = simplifyActionContext spawnStep
   \<and> data (simplifyActionContext resumeStep) = 7"
proof -
  have m: "resumeStep \<in> set (chainSteps returnStep)" "spawnStep \<in> set (chainSteps returnStep)"
    by (simp_all add: chainSteps_returnStep)
  have d: "data (chainRoot returnStep) = 7"
    by (simp add: chainRoot_returnStep) (simp add: spawnStep_def)
  from simplify_same_chain_idempotent[of returnStep] m d show ?thesis
    by metis
qed

section \<open>Synchronous steps\<close>

text \<open>
  C1 as amended. For a synchronous step the middleware calls, for that invocation,
  \<^verbatim>\<open>onStart\<close>, then \<^verbatim>\<open>onResume\<close> if that hook is configured, then runs the wrapped callback,
  then calls \<^verbatim>\<open>onSuspend\<close> if that hook is configured, then \<^verbatim>\<open>onFinish\<close> with \<open>Return\<close> and the
  value the callback returned, or with \<open>Throw\<close> and the error it threw; the result of the
  step is the callback's (the error is rethrown, after \<^verbatim>\<open>onFinish\<close>). When neither
  \<^verbatim>\<open>onResume\<close> nor \<^verbatim>\<open>onSuspend\<close> is configured, the calls the middleware adds are exactly
  \<^verbatim>\<open>onStart\<close> before the callback and \<^verbatim>\<open>onFinish\<close> after it. \<open>own c\<close> keeps the lifecycle
  calls made with the invocation's simple context \<open>c\<close>; the callback may add calls of its
  own (nested actions), which is why the calls are given around \<open>st1\<close> and \<open>st2\<close>, the
  states in which the callback starts and ends.
\<close>

theorem sync_step_hook_sequence:
  assumes "type ctx = Sync"
  shows
    "let c = simplifyActionContext ctx;
         st1 = resume h c True (start h c st);
         r = fst (origNext st1);
         st2 = snd (origNext st1);
         out = mware h ctx origNext st
     in fst out = r
      \<and> own c (calls st1)
          = own c (calls st) @ [OnStart c (seen st c started)]
            @ (if hooks_onResume h then [OnResume c (seen st c realResumed)] else [])
      \<and> own c (calls (snd out))
          = own c (calls st2)
            @ (if hooks_onSuspend h then [OnSuspend c (seen st2 c suspended)] else [])
            @ [OnFinish c (seen st2 c finished) (resultTag r) (resultValue r)]
      \<and> (if hooks_onResume h \<or> hooks_onSuspend h then True
          else calls st1 = calls st @ [OnStart c (seen st c started)]
             \<and> calls (snd out)
                 = calls st2 @ [OnFinish c (seen st2 c finished) (resultTag r) (resultValue r)])"
proof -
  define c where "c = simplifyActionContext ctx"
  define st1 where "st1 = resume h c True (start h c st)"
  define r where "r = fst (origNext st1)"
  define st2 where "st2 = snd (origNext st1)"
  have out: "mware h ctx origNext st
             = (r, finish h c (resultTag r) (resultValue r) (suspend h c st2))"
    by (simp add: mware_sync[OF assms] Let_def c_def st1_def r_def st2_def)
  have a: "own c (calls st1)
          = own c (calls st) @ [OnStart c (seen st c started)]
            @ (if hooks_onResume h then [OnResume c (seen st c realResumed)] else [])"
    using own_resumeCalls[of c h "start h c st" True]
    by (simp add: st1_def calls_resume calls_start)
  have b: "own c (calls (finish h c (resultTag r) (resultValue r) (suspend h c st2)))
          = own c (calls st2)
            @ (if hooks_onSuspend h then [OnSuspend c (seen st2 c suspended)] else [])
            @ [OnFinish c (seen st2 c finished) (resultTag r) (resultValue r)]"
    using own_suspendCalls[of c h st2]
    by (simp add: own_finish calls_suspend)
  have d: "calls st1 = calls st @ [OnStart c (seen st c started)]
           \<and> calls (finish h c (resultTag r) (resultValue r) (suspend h c st2))
               = calls st2 @ [OnFinish c (seen st2 c finished) (resultTag r) (resultValue r)]"
    if "\<not> hooks_onResume h" "\<not> hooks_onSuspend h"
    using that
    by (simp add: st1_def calls_resume calls_start resumeCalls_def calls_finish_no_hooks
        calls_suspend suspendCalls_def)
  show ?thesis
    unfolding Let_def c_def[symmetric] st1_def[symmetric] r_def[symmetric] st2_def[symmetric] out
    using a b d by simp
qed

text \<open>
  C1 as stated fails when \<^verbatim>\<open>onResume\<close> and \<^verbatim>\<open>onSuspend\<close> are configured: the sync action
  \<^verbatim>\<open>add\<close> is accepted by the filter, its callback returns 5, and the hook calls are
  \<^verbatim>\<open>onStart\<close>, \<^verbatim>\<open>onResume\<close>, \<^verbatim>\<open>onSuspend\<close>, \<^verbatim>\<open>onFinish\<close>, all four for that invocation.
\<close>

theorem sync_step_is_resumed_and_suspended:
  "type addCtx = Sync
   \<and> fst (filter hooksAll addCtx (trackerOf []))
   \<and> fst (mware hooksAll addCtx returnsFive (snd (filter hooksAll addCtx (trackerOf []))))
       = Inr (Val 5)
   \<and> calls (snd (mware hooksAll addCtx returnsFive (snd (filter hooksAll addCtx (trackerOf [])))))
       = [OnStart addCtx (Some (acceptedIn started)),
          OnResume addCtx (Some (acceptedIn realResumed)),
          OnSuspend addCtx (Some (acceptedIn suspended)),
          OnFinish addCtx (Some (acceptedIn finished)) Return (Val 5)]"
proof -
  let ?st = "snd (filter hooksAll addCtx (trackerOf []))"
  have h: "hooks_onResume hooksAll" "hooks_onSuspend hooksAll"
    "actionName hooksAll = None" "hooks_filter hooksAll = None"
    by (simp_all add: hooksAll_def)
  note f = filter_addCtx[OF h(3,4)]
  have r: "run st s addCtx = []" for st :: "nat tracker" and s
    by (simp add: run_eq[of st s addCtx] example_parents)
  have sr: "suspendRun addCtx st = []" for st :: "nat tracker"
    by (simp add: suspendRun_eq[of addCtx] example_parents)
  have sn: "seen ?st addCtx s = Some (acceptedIn s)" for s
    by (simp add: seen_def f(3) example_data acceptedIn_def)
  have "mware hooksAll addCtx returnsFive ?st
        = (Inr (Val 5),
           finish hooksAll addCtx Return (Val 5)
             (suspend hooksAll addCtx (resume hooksAll addCtx True (start hooksAll addCtx ?st))))"
    by (simp add: mware_sync[OF type_addCtx] simplify_addCtx Let_def returnsFive_def
        resultTag_def resultValue_def)
  then show ?thesis
    by (simp add: type_addCtx f(1,2) h finish_plain example_parents calls_suspend
        calls_resume calls_start suspendCalls_def resumeCalls_def r sr sn)
qed

theorem sync_step_hook_sequence_witness:
  "type addCtx = Sync
   \<and> fst (filter hooksPlain addCtx (trackerOf []))
   \<and> fst (mware hooksPlain addCtx returnsFive (snd (filter hooksPlain addCtx (trackerOf []))))
       = Inr (Val 5)
   \<and> calls (snd (mware hooksPlain addCtx returnsFive (snd (filter hooksPlain addCtx (trackerOf [])))))
       = [OnStart addCtx (Some (acceptedIn started)),
          OnFinish addCtx (Some (acceptedIn finished)) Return (Val 5)]
   \<and> fst (mware hooksPlain addCtx throwsNine (snd (filter hooksPlain addCtx (trackerOf []))))
       = Inl (Val 9)
   \<and> calls (snd (mware hooksPlain addCtx throwsNine (snd (filter hooksPlain addCtx (trackerOf [])))))
       = [OnStart addCtx (Some (acceptedIn started)),
          OnFinish addCtx (Some (acceptedIn finished)) Throw (Val 9)]"
proof -
  let ?st = "snd (filter hooksPlain addCtx (trackerOf []))"
  let ?st1 = "resume hooksPlain addCtx True (start hooksPlain addCtx ?st)"
  have h: "\<not> hooks_onResume hooksPlain" "\<not> hooks_onSuspend hooksPlain"
    "actionName hooksPlain = None" "hooks_filter hooksPlain = None"
    by (simp_all add: hooksPlain_def)
  note f = filter_addCtx[OF h(3,4)]
  have sn: "seen ?st addCtx s = Some (acceptedIn s)" for s
    by (simp add: seen_def f(3) example_data acceptedIn_def)
  have sn1: "seen ?st1 addCtx s = Some (acceptedIn s)" for s
    by (simp add: sn)
  note five = sync_step_hook_sequence[OF type_addCtx, of hooksPlain ?st returnsFive,
      unfolded Let_def simplify_addCtx]
  note nine = sync_step_hook_sequence[OF type_addCtx, of hooksPlain ?st throwsNine,
      unfolded Let_def simplify_addCtx]
  have "fst (mware hooksPlain addCtx returnsFive ?st) = Inr (Val 5)"
    using conjunct1[OF five] by (simp add: returnsFive_def)
  moreover have "calls (snd (mware hooksPlain addCtx returnsFive ?st))
       = [OnStart addCtx (Some (acceptedIn started)),
          OnFinish addCtx (Some (acceptedIn finished)) Return (Val 5)]"
    using conjunct2[OF conjunct2[OF conjunct2[OF five]]]
    by (simp add: h f(2) returnsFive_def sn sn1 resultTag_def resultValue_def)
  moreover have "fst (mware hooksPlain addCtx throwsNine ?st) = Inl (Val 9)"
    using conjunct1[OF nine] by (simp add: throwsNine_def)
  moreover have "calls (snd (mware hooksPlain addCtx throwsNine ?st))
       = [OnStart addCtx (Some (acceptedIn started)),
          OnFinish addCtx (Some (acceptedIn finished)) Throw (Val 9)]"
    using conjunct2[OF conjunct2[OF conjunct2[OF nine]]]
    by (simp add: h f(2) throwsNine_def sn sn1 resultTag_def resultValue_def)
  ultimately show ?thesis
    by (simp add: type_addCtx f(1))
qed

section \<open>Finishing under a suspended parent\<close>

text \<open>
  C2. When \<^verbatim>\<open>finish\<close> runs for a context whose parent has tracking data with
  \<^verbatim>\<open>startAccepted\<close> true and state \<open>suspended\<close>, it first resumes the parent as a fake resume
  (the parent's \<^verbatim>\<open>onResume\<close> call, when that hook is configured, is the last call before
  \<^verbatim>\<open>onFinish\<close>), then marks the context finished and calls \<^verbatim>\<open>onFinish\<close> while the parent is
  \<open>fakeResumed\<close>, and suspends the parent again straight after (its \<^verbatim>\<open>onSuspend\<close> call, when
  configured, is the first call after \<^verbatim>\<open>onFinish\<close>), leaving it \<open>suspended\<close>. When there is no
  parent, or the parent is untracked or in another state, \<^verbatim>\<open>finish\<close> only marks the context
  finished and calls \<^verbatim>\<open>onFinish\<close>.
\<close>

theorem finish_fake_resumes_suspended_parent:
  "(case parentContext c of
      None \<Rightarrow> finish h c r v st = hook (OnFinish c (seen st c finished) r v) (setState c finished st)
    | Some p \<Rightarrow>
        if tracked st p suspended
        then finish h c r v st
               = suspend h p (hook (OnFinish c (seen st c finished) r v)
                                (setState c finished (resume h p False st)))
             \<and> calls (finish h c r v st)
                 = calls st
                   @ (if hooks_onResume h
                      then map (\<lambda>q. OnResume q (seen st q fakeResumed)) (rev (run st suspended p))
                           @ [OnResume p (seen st p fakeResumed)]
                      else [])
                   @ [OnFinish c (seen st c finished) r v]
                   @ (if hooks_onSuspend h
                      then OnSuspend p (seen st p suspended)
                           # map (\<lambda>q. OnSuspend q (seen st q suspended))
                               (suspendRun p (setState c finished (resume h p False st)))
                      else [])
             \<and> stateAt (finish h c r v st) (data p) = Some suspended
             \<and> (if data p = data c then True
                 else tracked (setState c finished (resume h p False st)) p fakeResumed)
        else finish h c r v st = hook (OnFinish c (seen st c finished) r v) (setState c finished st))"
proof (cases "parentContext c")
  case None
  then show ?thesis by (simp add: finish_plain)
next
  case (Some p)
  show ?thesis
  proof (cases "tracked st p suspended")
    case False
    with Some show ?thesis by (simp add: finish_plain)
  next
    case True
    let ?st2 = "setState c finished (resume h p False st)"
    let ?st3 = "hook (OnFinish c (seen st c finished) r v) ?st2"
    have e: "finish h c r v st = suspend h p ?st3"
      by (rule finish_parent[OF Some True])
    have sr: "suspendRun p ?st3 = suspendRun p ?st2"
      by (rule suspendRun_hook)
    have c: "calls (finish h c r v st)
             = calls st @ resumeCalls h st p False @ [OnFinish c (seen st c finished) r v]
               @ suspendCalls h ?st2 p"
      unfolding e by (simp add: calls_suspend calls_resume suspendCalls_def sr)
    have s: "stateAt (finish h c r v st) (data p) = Some suspended"
      unfolding e by (simp add: stateAt_suspend)
    have t: "data p \<noteq> data c \<Longrightarrow> tracked ?st2 p fakeResumed"
      by (rule tracked_parent_during_finish[OF True])
    show ?thesis
      using Some True e s t c by (simp add: resumeCalls_def suspendCalls_def)
  qed
qed


theorem finish_fake_resumes_suspended_parent_witness:
  "tracked (trackerOf [(11, realResumed), (12, suspended), (13, suspended)]) midCtx suspended
   \<and> calls (finish hooksAll innerCtx Return (Val 5)
              (trackerOf [(11, realResumed), (12, suspended), (13, suspended)]))
       = [OnResume midCtx (Some (acceptedIn fakeResumed)),
          OnFinish innerCtx (Some (acceptedIn finished)) Return (Val 5),
          OnSuspend midCtx (Some (acceptedIn suspended))]
   \<and> stateAt (finish hooksAll innerCtx Return (Val 5)
                (trackerOf [(11, realResumed), (12, suspended), (13, suspended)])) 12
       = Some suspended"
proof -
  let ?st = "trackerOf [(11, realResumed), (12, suspended), (13, suspended)]"
  let ?st2 = "setState innerCtx finished (resume hooksAll midCtx False ?st)"
  have t: "tracked ?st midCtx suspended"
    by (simp add: tracked_trackerOf example_data)
  have r: "run ?st suspended midCtx = []"
    by (simp add: run_def example_ancestors tracked_trackerOf example_data)
  have "\<not> tracked (setState midCtx suspended ?st2) outerCtx fakeResumed"
    by (simp add: tracked_iff stateAt_resume r example_data stateAt_trackerOf)
  then have sr: "suspendRun midCtx ?st2 = []"
    by (simp add: suspendRun_eq[of midCtx] example_parents)
  have h: "hooks_onResume hooksAll" "hooks_onSuspend hooksAll" by (simp_all add: hooksAll_def)
  have pt: "(if tracked ?st midCtx suspended then P else Q) = P" for P Q :: bool
    using t by simp
  note f = finish_fake_resumes_suspended_parent[where c = innerCtx and h = hooksAll and r = Return
      and v = "Val 5" and st = ?st, unfolded example_parents option.case pt]
  have "calls (finish hooksAll innerCtx Return (Val 5) ?st)
        = [OnResume midCtx (Some (acceptedIn fakeResumed)),
           OnFinish innerCtx (Some (acceptedIn finished)) Return (Val 5),
           OnSuspend midCtx (Some (acceptedIn suspended))]"
    using conjunct1[OF conjunct2[OF f]]
    by (simp add: r sr h seen_trackerOf example_data acceptedIn_def)
  moreover have "stateAt (finish hooksAll innerCtx Return (Val 5) ?st) 12 = Some suspended"
    using conjunct1[OF conjunct2[OF conjunct2[OF f]]] by (simp add: example_data)
  ultimately show ?thesis using t by simp
qed

section \<open>Return and Throw steps inherit the acceptance of the spawn step\<close>

text \<open>
  C3. A step-chain starts with a spawn step on a fresh data bag; the filter runs on it in
  \<open>st0\<close>. Later, in any state \<open>st\<close> whose acceptance flag for the chain's root bag is the
  one the spawn step's filter left (no operation of the driver writes the flag), the
  filter accepts a Return or Throw step of the chain exactly when the root bag (found by
  walking \<open>previousAsyncStepContext\<close> to the end) carries \<^verbatim>\<open>startAccepted\<close> true, which is
  exactly when the spawn step was accepted. The state comes back unchanged, so the user's
  predicate is not called (no \<open>FilterCall\<close> is recorded), and the answer is the same for any
  predicate the hooks may hold by then (\<open>h'\<close> shares only the action name with \<open>h\<close>). All
  steps of a chain carry the name of the action.
\<close>

theorem return_throw_accepted_iff_spawn_accepted:
  assumes "type c = Async"
    and "asyncStepType c = Some AsyncReturn \<or> asyncStepType c = Some AsyncThrow"
    and "name c = name (chainRoot c)"
    and "type (chainRoot c) = Async"
    and "asyncStepType (chainRoot c) = Some Spawn"
    and "bags st0 (data (chainRoot c)) = None"
    and "flag st (data (chainRoot c)) = flag (snd (filter h (chainRoot c) st0)) (data (chainRoot c))"
    and "actionName h' = actionName h"
  shows "filter h' c st = (fst (filter h (chainRoot c) st0), st)
       \<and> fst (filter h' c st) = (flag st (data (chainRoot c)) = Some True)"
proof -
  let ?r = "chainRoot c"
  note sp = filter_spawn_fresh[OF assms(4,5,6), of h]
  have f: "flag st (data ?r) = (if fst (filter h ?r st0) then Some True else None)"
    using assms(7) conjunct1[OF sp] by simp
  have n: "nameRejected h' c = nameRejected h ?r"
    by (rule nameRejected_cong[OF assms(8,3)])
  have e: "filter h' c st = (\<not> nameRejected h' c \<and> flag st (data ?r) = Some True, st)"
    by (rule filter_return_throw[OF assms(1,2)])
  show ?thesis
  proof (cases "fst (filter h ?r st0)")
    case True
    with sp have "\<not> nameRejected h ?r" by simp
    with True show ?thesis by (simp add: e n f)
  next
    case False
    then show ?thesis by (simp add: e f)
  qed
qed


theorem return_throw_accepted_iff_spawn_accepted_witness:
  "type returnStep = Async \<and> asyncStepType returnStep = Some AsyncReturn
   \<and> chainRoot returnStep = spawnStep
   \<and> fst (filter hooksAll spawnStep (trackerOf []))
   \<and> filter hooksAll returnStep (trackerOf [(7, suspended)]) = (True, trackerOf [(7, suspended)])"
proof -
  let ?st = "trackerOf [(7, suspended)]"
  have h: "actionName hooksAll = None" "hooks_filter hooksAll = None"
    by (simp_all add: hooksAll_def)
  have c: "type returnStep = Async" "asyncStepType returnStep = Some AsyncReturn"
    "name returnStep = name spawnStep"
    by (simp_all add: returnStep_def spawnStep_def)
  have r: "type spawnStep = Async" "asyncStepType spawnStep = Some Spawn" "data spawnStep = 7"
    by (simp_all add: spawnStep_def)
  have a: "fst (filter hooksAll spawnStep (trackerOf []))"
    by (simp add: filter_spawn[OF r(1,2)] nameRejected_def acceptStart_def userFilter_def h)
  have fresh: "bags (trackerOf []) (data spawnStep) = None" by simp
  have f: "flag ?st (data spawnStep)
           = flag (snd (filter hooksAll spawnStep (trackerOf []))) (data spawnStep)"
    using conjunct1[OF filter_spawn_fresh[OF r(1,2) fresh, of hooksAll]] a
    by (simp add: flag_trackerOf r(3))
  note t = return_throw_accepted_iff_spawn_accepted[of returnStep "trackerOf []" ?st hooksAll hooksAll,
      unfolded chainRoot_returnStep, OF c(1) disjI1[OF c(2)] c(3) r(1) r(2) fresh f refl]
  from conjunct1[OF t] a c(1,2) show ?thesis
    by (simp add: chainRoot_returnStep)
qed

section \<open>The lifecycle of a tracked invocation\<close>

text \<open>
  C5. From the creation of the middleware, along any sequence of steps that follows the
  protocol of the context layer, with any hooks, every change of the state of a tracked
  invocation (an entry of the write history that leaves \<^verbatim>\<open>startAccepted\<close> true) follows
  the graph: tracking data is created \<open>idle\<close>; \<open>idle\<close> moves to \<open>started\<close> only; \<open>started\<close>
  moves to a resumed state only, so that \<open>suspended\<close> is entered after a resume; among
  \<open>realResumed\<close>, \<open>fakeResumed\<close> and \<open>suspended\<close> any move is possible, and from them the
  move to \<open>finished\<close>; and \<open>finished\<close> has no move.
\<close>

theorem lifecycle_follows_graph:
  assumes "protos None steps (\<lambda>a. None) = Some g"
  shows "list_all followsGraph (writes (runSteps h steps created))
       \<and> (\<forall>s. allowed None s = (s = idle))
       \<and> (\<forall>s. allowed (Some idle) s = (s = started))
       \<and> (\<forall>s. allowed (Some started) s = (s = realResumed \<or> s = fakeResumed))
       \<and> (\<forall>s. allowed (Some finished) s = False)"
proof -
  have "encOK (\<lambda>a. None) None" by (simp add: encOK_def)
  with assms wfg_empty have "runInv g (runSteps h steps created)"
    using runInv_created steps_inv by blast
  then have "logOK (runSteps h steps created)" by (rule invD3)
  then show ?thesis by (simp add: logOK_def)
qed

theorem lifecycle_follows_graph_witness:
  "protos None fetchSteps (\<lambda>a. None) = Some ((\<lambda>a. None)(7 \<mapsto> (spawnStep, Done)))
   \<and> list_all followsGraph (writes (runSteps hooksAll fetchSteps created))
   \<and> map (\<lambda>(a, b, c). (a, stateOf b, state c)) (writes (runSteps hooksAll fetchSteps created))
       = [(7, None, Some idle), (7, Some idle, Some started),
          (7, Some started, Some realResumed), (7, Some realResumed, Some suspended),
          (7, Some suspended, Some realResumed), (7, Some realResumed, Some suspended),
          (7, Some suspended, Some realResumed), (7, Some realResumed, Some suspended),
          (7, Some suspended, Some finished)]"
proof -
  have "map (\<lambda>(a, b, c). (a, stateOf b, state c)) (writes (runSteps hooksAll fetchSteps created))
       = [(7, None, Some idle), (7, Some idle, Some started),
          (7, Some started, Some realResumed), (7, Some realResumed, Some suspended),
          (7, Some suspended, Some realResumed), (7, Some realResumed, Some suspended),
          (7, Some suspended, Some realResumed), (7, Some realResumed, Some suspended),
          (7, Some suspended, Some finished)]"
    by code_simp
  with conjunct1[OF lifecycle_follows_graph[OF fetch_protocol, of hooksAll]] fetch_protocol
  show ?thesis by simp
qed

section \<open>Suspending\<close>

text \<open>
  C6. \<^verbatim>\<open>suspend\<close> sets the context's state to \<open>suspended\<close> and calls its \<^verbatim>\<open>onSuspend\<close>
  hook (if configured) first; it then suspends the parent exactly when the parent's tracking
  data has \<^verbatim>\<open>startAccepted\<close> true and state \<open>fakeResumed\<close>, and so on upwards: the hook
  calls are those of the context followed by the unbroken run of accepted, fake-resumed
  ancestors, nearest first, and exactly their states become \<open>suspended\<close>. A parent in any
  other state (\<open>realResumed\<close> for one) ends the run. Every invocation has a data bag of its
  own, which is the hypothesis.
\<close>

theorem suspend_own_hook_then_fake_resumed_parents:
  assumes "distinct (map data (c # ancestors c))"
  shows "calls (suspend h c st)
           = calls st @ (if hooks_onSuspend h
                         then map (\<lambda>x. OnSuspend x (seen st x suspended)) (c # run st fakeResumed c)
                         else [])
       \<and> (\<forall>a. stateAt (suspend h c st) a
                 = (if a \<in> data ` set (c # run st fakeResumed c) then Some suspended
                    else stateAt st a))
       \<and> run st fakeResumed c
           = (case parentContext c of
                None \<Rightarrow> []
              | Some p \<Rightarrow> if tracked st p fakeResumed then p # run st fakeResumed p else [])
       \<and> (case parentContext c of
             None \<Rightarrow> True
           | Some p \<Rightarrow>
               suspend h c st
                 = (let st2 = (if hooks_onSuspend h
                               then hook (OnSuspend c (seen st c suspended)) (setState c suspended st)
                               else setState c suspended st)
                    in if tracked st p fakeResumed then suspend h p st2 else st2))"
proof -
  have r: "suspendRun c st = run st fakeResumed c"
    by (rule suspendRun_distinct[OF assms])
  have 1: "calls (suspend h c st)
           = calls st @ (if hooks_onSuspend h
                         then map (\<lambda>x. OnSuspend x (seen st x suspended)) (c # run st fakeResumed c)
                         else [])"
    using calls_suspend[of h c st] by (simp only: suspendCalls_def r)
  have 2: "stateAt (suspend h c st) a
                 = (if a \<in> data ` set (c # run st fakeResumed c) then Some suspended
                    else stateAt st a)" for a
    using stateAt_suspend[of h c st a] by (simp only: r)
  have 4: "suspend h c st
                 = (let st2 = (if hooks_onSuspend h
                               then hook (OnSuspend c (seen st c suspended)) (setState c suspended st)
                               else setState c suspended st)
                    in if tracked st p fakeResumed then suspend h p st2 else st2)"
    if p: "parentContext c = Some p" for p
  proof -
    have "data p \<noteq> data c"
      using assms ancestors_parent[OF p] by auto
    then have "tracked (setState c suspended st) p fakeResumed = tracked st p fakeResumed"
      by (simp add: tracked_setState)
    then show ?thesis
      using p by (simp add: suspend_eq[of h c] Let_def)
  qed
  show ?thesis
    using 1 2 4 by (simp add: run_eq[of st fakeResumed c] split: option.split)
qed

theorem suspend_own_hook_then_fake_resumed_parents_witness:
  "distinct (map data (innerCtx # ancestors innerCtx))
   \<and> calls (suspend hooksAll innerCtx
              (trackerOf [(11, realResumed), (12, fakeResumed), (13, realResumed)]))
       = [OnSuspend innerCtx (Some (acceptedIn suspended)), OnSuspend midCtx (Some (acceptedIn suspended))]
   \<and> stateAt (suspend hooksAll innerCtx
                (trackerOf [(11, realResumed), (12, fakeResumed), (13, realResumed)])) 11
       = Some realResumed"
proof -
  let ?st = "trackerOf [(11, realResumed), (12, fakeResumed), (13, realResumed)]"
  have d: "distinct (map data (innerCtx # ancestors innerCtx))"
    by (simp add: example_ancestors example_data)
  have r: "run ?st fakeResumed innerCtx = [midCtx]"
    by (simp add: run_def example_ancestors tracked_trackerOf example_data)
  have h: "hooks_onSuspend hooksAll" by (simp add: hooksAll_def)
  note t = suspend_own_hook_then_fake_resumed_parents[OF d, of hooksAll ?st, unfolded r]
  have "calls (suspend hooksAll innerCtx ?st)
        = [OnSuspend innerCtx (Some (acceptedIn suspended)), OnSuspend midCtx (Some (acceptedIn suspended))]"
    using conjunct1[OF t] by (simp add: h seen_trackerOf example_data acceptedIn_def)
  moreover have "stateAt (suspend hooksAll innerCtx ?st) 11 = Some realResumed"
    using spec[OF conjunct1[OF conjunct2[OF t]], of 11]
    by (simp add: example_data stateAt_trackerOf)
  ultimately show ?thesis using d by simp
qed

section \<open>Resuming\<close>

text \<open>
  C7 as amended. \<^verbatim>\<open>resume(ctx, real)\<close> first resumes the unbroken run of accepted, suspended
  ancestors that starts at the parent of \<open>ctx\<close>, outermost first, each to \<open>fakeResumed\<close>
  whatever \<open>real\<close> is, and only then sets the state of \<open>ctx\<close> and calls its \<^verbatim>\<open>onResume\<close> hook.
  The run ends at the first ancestor that is untracked or not suspended; the ancestors
  beyond it keep their state, suspended or not.
\<close>

theorem resume_fake_resumes_suspended_run:
  "calls (resume h c real st)
     = calls st @ (if hooks_onResume h
                   then map (\<lambda>p. OnResume p (seen st p fakeResumed)) (rev (run st suspended c))
                        @ [OnResume c (seen st c (if real then realResumed else fakeResumed))]
                   else [])
   \<and> (\<forall>a. stateAt (resume h c real st) a
             = (if a = data c then Some (if real then realResumed else fakeResumed)
                else if a \<in> data ` set (run st suspended c) then Some fakeResumed
                else stateAt st a))
   \<and> (\<forall>a. flag (resume h c real st) a = flag st a)
   \<and> run st suspended c
       = (case parentContext c of
            None \<Rightarrow> []
          | Some p \<Rightarrow> if tracked st p suspended then p # run st suspended p else [])"
  using calls_resume[of h c real st] stateAt_resume[of h c real st]
  by (simp add: resumeCalls_def run_eq[of st suspended c] split: option.split)

text \<open>
  C7 as stated fails: \<^verbatim>\<open>inner\<close> resumes for real while its parent \<^verbatim>\<open>mid\<close> has finished and
  its grandparent \<^verbatim>\<open>outer\<close> is accepted and suspended. The grandparent is an ancestor with
  \<^verbatim>\<open>startAccepted\<close> true and state \<open>suspended\<close>, and it is not resumed: the only hook call is
  that of \<^verbatim>\<open>inner\<close>, and the grandparent is still suspended afterwards.
\<close>

theorem resume_skips_suspended_grandparent:
  "outerCtx \<in> set (ancestors innerCtx)
   \<and> tracked (trackerOf [(11, suspended), (12, finished), (13, suspended)]) outerCtx suspended
   \<and> calls (resume hooksAll innerCtx True
              (trackerOf [(11, suspended), (12, finished), (13, suspended)]))
       = [OnResume innerCtx (Some (acceptedIn realResumed))]
   \<and> stateAt (resume hooksAll innerCtx True
                (trackerOf [(11, suspended), (12, finished), (13, suspended)])) (data outerCtx)
       = Some suspended"
proof -
  let ?st = "trackerOf [(11, suspended), (12, finished), (13, suspended)]"
  have r: "run ?st suspended innerCtx = []"
    by (simp add: run_def example_ancestors tracked_trackerOf example_data)
  have h: "hooks_onResume hooksAll" by (simp add: hooksAll_def)
  have "calls (resume hooksAll innerCtx True ?st) = [OnResume innerCtx (Some (acceptedIn realResumed))]"
    by (simp add: calls_resume resumeCalls_def r h seen_trackerOf example_data acceptedIn_def)
  moreover have "stateAt (resume hooksAll innerCtx True ?st) (data outerCtx) = Some suspended"
    by (simp add: stateAt_resume r example_data stateAt_trackerOf)
  moreover have "tracked ?st outerCtx suspended"
    by (simp add: tracked_trackerOf example_data)
  ultimately show ?thesis by (simp add: example_ancestors)
qed

section \<open>Resume steps and the assertion of the entry point\<close>

lemma filter_resume:
  assumes "type c = Async" "asyncStepType c = Some Resume \<or> asyncStepType c = Some ResumeError"
  shows "filter h c st = (\<not> nameRejected h c \<and> resumeSuspendSupport h, st)"
  using assms by (auto simp: filter_def)

lemma mware_resume_unsupported:
  assumes "type c = Async" "asyncStepType c = Some Resume \<or> asyncStepType c = Some ResumeError"
    "\<not> resumeSuspendSupport h"
  shows "mware h c origNext st = (Inl (assertionError h c), st)"
  using assms by (auto simp: mware_def Let_def)

lemma mware_resume_supported:
  assumes "type c = Async" "asyncStepType c = Some Resume \<or> asyncStepType c = Some ResumeError"
    "resumeSuspendSupport h"
  shows "mware h c origNext st = wrapNext h (simplifyActionContext c) origNext st"
  using assms by (auto simp: mware_def Let_def)

lemma mware_no_step:
  assumes "type c = Async" "asyncStepType c = None"
  shows "mware h c origNext st = (Inl (assertionError h c), st)"
  using assms by (simp add: mware_def Let_def)

text \<open>
  C8 as amended. The filter accepts a Resume or ResumeError step exactly when the
  \<^verbatim>\<open>actionName\<close> rule does not reject it (no \<^verbatim>\<open>actionName\<close> is configured, or the step's name
  is that name) and at least one of \<^verbatim>\<open>onResume\<close> and \<^verbatim>\<open>onSuspend\<close> is configured. If the
  middleware body runs on such a step with neither hook configured, or on an async step
  with no step type of the five, it throws the assertion error built by \<^verbatim>\<open>failure\<close>, calls
  no hook, writes no tracking data and does not run the wrapped callback.
\<close>

theorem resume_steps_need_hooks_and_name:
  assumes "type c = Async"
  shows "(if asyncStepType c = Some Resume \<or> asyncStepType c = Some ResumeError
          then filter h c st
                 = (\<not> nameRejected h c \<and> (hooks_onResume h \<or> hooks_onSuspend h), st)
             \<and> mware h c origNext st
                 = (if hooks_onResume h \<or> hooks_onSuspend h
                    then wrapNext h (simplifyActionContext c) origNext st
                    else (Inl (assertionError h c), st))
          else if asyncStepType c = None
          then filter h c st = (False, st)
             \<and> mware h c origNext st = (Inl (assertionError h c), st)
          else True)
       \<and> assertionError h c
           = MobxStateTreeNextError
               (''asssertion error: async step should have been filtered out - ''
                @ stepText h (asyncStepType c))
       \<and> nameRejected h c
           = (case actionName h of None \<Rightarrow> False | Some a \<Rightarrow> a \<noteq> [] \<and> name c \<noteq> a)"
proof -
  have 1: "filter h c st = (\<not> nameRejected h c \<and> (hooks_onResume h \<or> hooks_onSuspend h), st)
           \<and> mware h c origNext st
                 = (if hooks_onResume h \<or> hooks_onSuspend h
                    then wrapNext h (simplifyActionContext c) origNext st
                    else (Inl (assertionError h c), st))"
    if s: "asyncStepType c = Some Resume \<or> asyncStepType c = Some ResumeError"
  proof (cases "resumeSuspendSupport h")
    case True
    then show ?thesis
      using filter_resume[OF assms s, of h st] mware_resume_supported[OF assms s True, of origNext st]
      by (simp add: resumeSuspendSupport_def)
  next
    case False
    then show ?thesis
      using filter_resume[OF assms s, of h st] mware_resume_unsupported[OF assms s False, of origNext st]
      by (simp add: resumeSuspendSupport_def)
  qed
  have 2: "filter h c st = (False, st)" "mware h c origNext st = (Inl (assertionError h c), st)"
    if "asyncStepType c = None"
    using that assms by (simp_all add: filter_def mware_no_step)
  show ?thesis
    using 1 2 by (auto simp: assertionError_def failure_def nameRejected_def)
qed


text \<open>
  C8 as stated fails: with \<^verbatim>\<open>onResume\<close> and \<^verbatim>\<open>onSuspend\<close> configured on a middleware that
  tracks the action \<^verbatim>\<open>save\<close>, the filter rejects a Resume step of the action \<^verbatim>\<open>fetch\<close>.
\<close>

theorem resume_step_of_other_action_rejected:
  "type resumeStep = Async \<and> asyncStepType resumeStep = Some Resume
   \<and> hooks_onResume hooksNamed \<and> hooks_onSuspend hooksNamed
   \<and> filter hooksNamed resumeStep (trackerOf []) = (False, trackerOf [])"
  by (simp add: filter_def nameRejected_def hooksNamed_def resumeStep_def)

theorem resume_steps_need_hooks_and_name_witness:
  "type resumeStep = Async \<and> asyncStepType resumeStep = Some Resume
   \<and> filter hooksAll resumeStep (trackerOf []) = (True, trackerOf [])
   \<and> filter hooksPlain resumeStep (trackerOf []) = (False, trackerOf [])
   \<and> mware hooksPlain resumeStep returnsFive (trackerOf [])
       = (Inl (MobxStateTreeNextError
                 ''asssertion error: async step should have been filtered out - ''),
          trackerOf [])"
proof -
  have c: "type resumeStep = Async" "asyncStepType resumeStep = Some Resume"
    by (simp_all add: resumeStep_def)
  have n: "\<not> nameRejected hooksAll resumeStep" "\<not> nameRejected hooksPlain resumeStep"
    by (simp_all add: nameRejected_def hooksAll_def hooksPlain_def)
  have h: "hooks_onResume hooksAll" "\<not> hooks_onResume hooksPlain" "\<not> hooks_onSuspend hooksPlain"
    "stepText hooksPlain (Some Resume) = []"
    by (simp_all add: hooksAll_def hooksPlain_def)
  note a = resume_steps_need_hooks_and_name[OF c(1), of hooksAll "trackerOf []" returnsFive]
  note p = resume_steps_need_hooks_and_name[OF c(1), of hooksPlain "trackerOf []" returnsFive]
  from a have "filter hooksAll resumeStep (trackerOf []) = (True, trackerOf [])"
    by (simp add: c n h)
  moreover from p have "filter hooksPlain resumeStep (trackerOf []) = (False, trackerOf [])"
    by (simp add: c n h)
  moreover from p have "mware hooksPlain resumeStep returnsFive (trackerOf [])
       = (Inl (MobxStateTreeNextError
                 ''asssertion error: async step should have been filtered out - ''),
          trackerOf [])"
    by (simp add: c n h)
  ultimately show ?thesis using c by simp
qed

section \<open>Validation at configuration time\<close>

lemma isObject_iff: "isObject v \<longleftrightarrow> (\<exists>m a. v = JsObject m a)"
  by (cases v) (simp_all add: isObject_def)

text \<open>
  What the three checks of lines 77 to 89 decide, on every target: the call throws when the
  target is not an object, when its \<^verbatim>\<open>model\<close> is not a \<^verbatim>\<open>Model\<close> instance, and when
  \<^verbatim>\<open>actionName\<close> is truthy and not the name of a function member; in every other case, the
  empty string as \<^verbatim>\<open>actionName\<close> among them, it returns the middleware object, with the
  model as its target and the action name in its closure.
\<close>

lemma configuration_outcome:
  "(case targetArg of
      JsObject model a \<Rightarrow>
        (case model of
           NotAModel \<Rightarrow>
             actionTrackingMiddleware targetArg hooks = Inl (failure ''target must be a model'')
         | ModelInstance functions \<Rightarrow>
             if truthy a \<and> (\<forall>n. a = Some n \<longrightarrow> n \<notin> set functions)
             then actionTrackingMiddleware targetArg hooks
                    = Inl (failure ''action must be a function or undefined'')
             else actionTrackingMiddleware targetArg hooks
                    = Inr (hooks\<lparr>actionName := a\<rparr>, model))
    | _ \<Rightarrow> actionTrackingMiddleware targetArg hooks = Inl (failure ''target must be an object''))
   \<and> ((\<exists>e. actionTrackingMiddleware targetArg hooks = Inl e)
        \<longleftrightarrow> (\<not> isObject targetArg
             \<or> (\<exists>a. targetArg = JsObject NotAModel a)
             \<or> (\<exists>functions n. targetArg = JsObject (ModelInstance functions) (Some n)
                    \<and> n \<noteq> [] \<and> n \<notin> set functions)))"
proof (cases targetArg)
  case (JsObject model a)
  show ?thesis
  proof (cases model)
    case NotAModel
    with JsObject show ?thesis
      by (simp add: actionTrackingMiddleware_def isObject_def)
  next
    case (ModelInstance members)
    with JsObject show ?thesis
      by (cases a) (auto simp: actionTrackingMiddleware_def isObject_def)
  qed
qed (simp_all add: actionTrackingMiddleware_def isObject_def)

lemma configuration_examples:
  "actionTrackingMiddleware JsNull hooksPlain = Inl (failure ''target must be an object'')
   \<and> actionTrackingMiddleware (JsObject NotAModel None) hooksPlain
       = Inl (failure ''target must be a model'')
   \<and> actionTrackingMiddleware (JsObject (ModelInstance [''add'']) (Some ''save'')) hooksPlain
       = Inl (failure ''action must be a function or undefined'')
   \<and> actionTrackingMiddleware (JsObject (ModelInstance [''add'']) (Some ''add'')) hooksPlain
       = Inr (hooksPlain\<lparr>actionName := Some ''add''\<rparr>, ModelInstance [''add''])
   \<and> actionTrackingMiddleware (JsObject (ModelInstance [''add'']) None) hooksPlain
       = Inr (hooksPlain\<lparr>actionName := None\<rparr>, ModelInstance [''add''])"
proof -
  note t = configuration_outcome
  have "actionTrackingMiddleware JsNull hooksPlain = Inl (failure ''target must be an object'')"
    using conjunct1[OF t[of JsNull hooksPlain]] by simp
  moreover have "actionTrackingMiddleware (JsObject NotAModel None) hooksPlain
       = Inl (failure ''target must be a model'')"
    using conjunct1[OF t[of "JsObject NotAModel None" hooksPlain]] by simp
  moreover have "actionTrackingMiddleware (JsObject (ModelInstance [''add'']) (Some ''save'')) hooksPlain
       = Inl (failure ''action must be a function or undefined'')"
    using conjunct1[OF t[of "JsObject (ModelInstance [''add'']) (Some ''save'')" hooksPlain]] by simp
  moreover have "actionTrackingMiddleware (JsObject (ModelInstance [''add'']) (Some ''add'')) hooksPlain
       = Inr (hooksPlain\<lparr>actionName := Some ''add''\<rparr>, ModelInstance [''add''])"
    using conjunct1[OF t[of "JsObject (ModelInstance [''add'']) (Some ''add'')" hooksPlain]] by simp
  moreover have "actionTrackingMiddleware (JsObject (ModelInstance [''add'']) None) hooksPlain
       = Inr (hooksPlain\<lparr>actionName := None\<rparr>, ModelInstance [''add''])"
    using conjunct1[OF t[of "JsObject (ModelInstance [''add'']) None" hooksPlain]] by simp
  ultimately show ?thesis by simp
qed

text \<open>
  C9. The call is to throw when \<^verbatim>\<open>actionName\<close> is supplied and \<^verbatim>\<open>model[actionName]\<close> is not
  a function, and the message of the third check says so: the action must be a function or
  undefined. The code misses one case, because line 87 tests the truthiness of
  \<^verbatim>\<open>actionName\<close>. On a model whose only function member is \<^verbatim>\<open>add\<close> (it may have a member
  named by the empty string that is not a function, so that the name is a key of the
  model), the target with the empty string as \<^verbatim>\<open>actionName\<close> is an object, its model is a
  model, the name is supplied and is not the name of a function member; yet the call
  returns a middleware, where the name \<^verbatim>\<open>save\<close>, not a function member either, throws. The
  middleware returned keeps the empty name, which line 119 takes for no name: it accepts
  the spawn step of \<^verbatim>\<open>fetch\<close>.
\<close>

theorem empty_action_name_is_not_rejected:
  "actionTrackingMiddleware (JsObject (ModelInstance [''add'']) (Some '''')) hooksPlain
     = Inr (hooksPlain\<lparr>actionName := Some ''''\<rparr>, ModelInstance [''add''])
   \<and> isObject (JsObject (ModelInstance [''add'']) (Some ''''))
   \<and> '''' \<notin> set [''add'']
   \<and> actionTrackingMiddleware (JsObject (ModelInstance [''add'']) (Some ''save'')) hooksPlain
       = Inl (failure ''action must be a function or undefined'')
   \<and> fst (filter (hooksPlain\<lparr>actionName := Some ''''\<rparr>) spawnStep created)"
  by (simp add: actionTrackingMiddleware_def isObject_def filter_def nameRejected_def
      acceptStart_def userFilter_def spawnStep_def hooksPlain_def)

section \<open>What the hooks observe\<close>

text \<open>
  C10. Each operation of the driver writes the new state into the tracking data of its
  context and then calls the hook. The write: the history of writes gains an entry for the
  bag of the context, whose data is the flag the bag had and the new state, \<open>started\<close> for
  \<^verbatim>\<open>start\<close>, \<open>realResumed\<close> or \<open>fakeResumed\<close> as the \<open>real\<close> flag says for \<^verbatim>\<open>resume\<close>,
  \<open>suspended\<close> for \<^verbatim>\<open>suspend\<close> and \<open>finished\<close> for \<^verbatim>\<open>finish\<close>; and the bag holds that state
  when the operation is over (for \<^verbatim>\<open>finish\<close>, which suspends the parent again after the
  hook, when no ancestor shares the bag of the context). The hook: the \<^verbatim>\<open>onStart\<close> call
  sees \<open>started\<close>, the context's own \<^verbatim>\<open>onResume\<close> call sees \<open>realResumed\<close> or \<open>fakeResumed\<close>,
  its \<^verbatim>\<open>onSuspend\<close> call sees \<open>suspended\<close> and its \<^verbatim>\<open>onFinish\<close> call sees \<open>finished\<close>, each
  with the data just written; and every other hook call the operation makes on the way
  (the fake resumes and suspends of ancestors) sees the state just written for its own
  context too.
\<close>

theorem hooks_see_the_new_state:
  "calls (start h c st) = calls st @ [OnStart c (seen st c started)]
   \<and> (\<exists>es. calls (resume h c real st) = calls st @ es \<and> list_all seesNewState es
         \<and> own c es = (if hooks_onResume h
                        then [OnResume c (seen st c (if real then realResumed else fakeResumed))]
                        else []))
   \<and> (\<exists>es. calls (suspend h c st) = calls st @ es \<and> list_all seesNewState es
         \<and> own c es = (if hooks_onSuspend h then [OnSuspend c (seen st c suspended)] else []))
   \<and> (\<exists>es. calls (finish h c r v st) = calls st @ es \<and> list_all seesNewState es
         \<and> own c es = [OnFinish c (seen st c finished) r v])
   \<and> seen st c s = Some \<lparr>startAccepted = flag st (data c), state = Some s\<rparr>
   \<and> getCtxData (start h c st) c = seen st c started
   \<and> getCtxData (setState c s st) c = seen st c s
   \<and> wrote st (start h c st) c started
   \<and> wrote st (resume h c real st) c (if real then realResumed else fakeResumed)
   \<and> wrote st (suspend h c st) c suspended
   \<and> wrote st (finish h c r v st) c finished
   \<and> stateAt (start h c st) (data c) = Some started
   \<and> stateAt (resume h c real st) (data c) = Some (if real then realResumed else fakeResumed)
   \<and> stateAt (suspend h c st) (data c) = Some suspended
   \<and> (data c \<notin> data ` set (ancestors c)
        \<longrightarrow> stateAt (finish h c r v st) (data c) = Some finished)"
proof -
  have 1: "calls (start h c st) = calls st @ [OnStart c (seen st c started)]"
    by (simp add: start_eq)
  have 2: "\<exists>es. calls (resume h c real st) = calls st @ es \<and> list_all seesNewState es
         \<and> own c es = (if hooks_onResume h
                        then [OnResume c (seen st c (if real then realResumed else fakeResumed))]
                        else [])"
    using calls_resume[of h c real st] seesNewState_resumeCalls[of h st c real]
      own_resumeCalls[of c h st real] by blast
  have 3: "\<exists>es. calls (suspend h c st) = calls st @ es \<and> list_all seesNewState es
         \<and> own c es = (if hooks_onSuspend h then [OnSuspend c (seen st c suspended)] else [])"
    using calls_suspend[of h c st] seesNewState_suspendCalls[of h st c]
      own_suspendCalls[of c h st] by blast
  have 4: "\<exists>es. calls (finish h c r v st) = calls st @ es \<and> list_all seesNewState es
         \<and> own c es = [OnFinish c (seen st c finished) r v]"
  proof -
    from finish_calls_shape[of h c r v st] obtain pre post where
      a: "calls (finish h c r v st) = calls st @ pre @ [OnFinish c (seen st c finished) r v] @ post"
      and b: "list_all seesNewState (pre @ post)" and c: "own c pre = []" "own c post = []"
      by blast
    have "list_all seesNewState (pre @ [OnFinish c (seen st c finished) r v] @ post)"
      using b by simp
    moreover have "own c (pre @ [OnFinish c (seen st c finished) r v] @ post)
                   = [OnFinish c (seen st c finished) r v]"
      using c by simp
    ultimately show ?thesis using a by blast
  qed
  have 5: "getCtxData (start h c st) c = seen st c started"
    by (simp add: start_eq getCtxData_def seen_def)
  have 6: "seen st c s = Some \<lparr>startAccepted = flag st (data c), state = Some s\<rparr>"
    by (simp add: seen_def)
  have 7: "getCtxData (setState c s st) c = seen st c s"
    by simp
  note w = wrote_start[of st h c] wrote_resume[of st h c real] wrote_suspend[of st h c]
    wrote_finish[of st h c r v]
  note s = stateAt_start_own[of h c st] stateAt_resume_own[of h c real st]
    stateAt_suspend_own[of h c st]
  have 8: "data c \<notin> data ` set (ancestors c)
        \<longrightarrow> stateAt (finish h c r v st) (data c) = Some finished"
    using stateAt_finish_own[of c h r v st] by blast
  show ?thesis
    by (intro conjI 1 2 3 4 5 6 7 w s 8)
qed

theorem hooks_see_the_new_state_witness:
  "data innerCtx \<notin> data ` set (ancestors innerCtx)
   \<and> stateAt (finish hooksAll innerCtx Return (Val 5)
                (trackerOf [(11, realResumed), (12, suspended), (13, suspended)])) 13
       = Some finished
   \<and> wrote (trackerOf [(11, realResumed), (12, suspended), (13, suspended)])
        (finish hooksAll innerCtx Return (Val 5)
           (trackerOf [(11, realResumed), (12, suspended), (13, suspended)])) innerCtx finished
   \<and> map (\<lambda>(a, b, d). (a, stateOf b, state d))
         (writes (finish hooksAll innerCtx Return (Val 5)
                    (trackerOf [(11, realResumed), (12, suspended), (13, suspended)])))
       = [(12, Some suspended, Some fakeResumed), (13, Some suspended, Some finished),
          (12, Some fakeResumed, Some suspended)]"
proof -
  let ?st = "trackerOf [(11, realResumed), (12, suspended), (13, suspended)]"
  note t = hooks_see_the_new_state[where c = innerCtx and h = hooksAll and r = Return
      and v = "Val 5" and st = ?st and real = True and s = finished]
  have d: "data innerCtx \<notin> data ` set (ancestors innerCtx)"
    by (simp add: example_ancestors example_data)
  from t have "data innerCtx \<notin> data ` set (ancestors innerCtx)
        \<longrightarrow> stateAt (finish hooksAll innerCtx Return (Val 5) ?st) (data innerCtx) = Some finished"
    by blast
  with d have a: "stateAt (finish hooksAll innerCtx Return (Val 5) ?st) 13 = Some finished"
    by (simp add: example_data)
  from t have b: "wrote ?st (finish hooksAll innerCtx Return (Val 5) ?st) innerCtx finished"
    by blast
  have c: "map (\<lambda>(a, b, d). (a, stateOf b, state d))
         (writes (finish hooksAll innerCtx Return (Val 5) ?st))
       = [(12, Some suspended, Some fakeResumed), (13, Some suspended, Some finished),
          (12, Some fakeResumed, Some suspended)]"
    by code_simp
  from d a b c show ?thesis by simp
qed


end
